theory Spec2Isabelle
  imports Complex_Main "HOL-Library.Sublist"
begin

section \<open>FontFitter: the search of \<open>TextMetrics.maxFontSize\<close>\<close>

text \<open>
  The search of \<open>maxFontSize\<close> only sees the text through the closure \<open>compute\<close>,
  which renders the parsed text at a font size and rounds the width up. The rendered
  width at a size is the parameter \<open>width_at\<close>; the width budget \<open>max\<close> is the integer
  that \<open>parseInt\<close> and the padding leave. Sizes and rounded widths are integers.
  The refinement step \<open>Math.floor((size / cur) * max)\<close> is computed on exact quotients
  (the rounding of IEEE doubles is not part of the model); when \<open>cur\<close> is zero the
  JavaScript quotient is \<open>Infinity\<close> or \<open>NaN\<close> and the search leaves the integers:
  that branch is the error \<open>NonFiniteSize\<close>.
  The returned string \<open>size.toString() + 'px'\<close> is modelled by the number, and
  \<open>undefined\<close> by \<open>None\<close>.
\<close>

datatype fit_error = NonFiniteSize

definition compute :: "(int \<Rightarrow> real) \<Rightarrow> int \<Rightarrow> int" where
  "compute width_at sz = \<lceil>width_at sz\<rceil>"

text \<open>\<open>size ? size.toString() + 'px' : undefined\<close>\<close>

definition px_or_undefined :: "int \<Rightarrow> int option" where
  "px_or_undefined sz = (if sz \<noteq> 0 then Some sz else None)"

text \<open>\<open>while (cur > max && size > 0) { size -= 1; cur = compute(size); }\<close>\<close>

function dec_loop :: "(int \<Rightarrow> real) \<Rightarrow> int \<Rightarrow> int \<Rightarrow> int \<Rightarrow> int \<times> int" where
  "dec_loop width_at mx sz cur =
     (if cur > mx \<and> sz > 0
      then dec_loop width_at mx (sz - 1) (compute width_at (sz - 1))
      else (sz, cur))"
  by pat_completeness auto
termination
  by (relation "measure (\<lambda>(w, mx, sz, cur). nat sz)") auto

declare dec_loop.simps [simp del]

text \<open>
  \<open>while (cur < max) { cur = compute(size + 1); if (cur > max) return ...; size += 1; }\<close>
  followed by the final \<open>return\<close>. The loop has no bound: not returning is \<open>None\<close>.
\<close>

partial_function (option) inc_loop :: "(int \<Rightarrow> real) \<Rightarrow> int \<Rightarrow> int \<Rightarrow> int \<Rightarrow> int option option" where
  "inc_loop width_at mx sz cur =
     (if cur < mx
      then (if compute width_at (sz + 1) > mx
            then Some (px_or_undefined sz)
            else inc_loop width_at mx (sz + 1) (compute width_at (sz + 1)))
      else Some (px_or_undefined sz))"

text \<open>\<open>Math.floor((size / cur) * max)\<close>, for a non-zero \<open>cur\<close>.\<close>

definition refine :: "int \<Rightarrow> int \<Rightarrow> int \<Rightarrow> int" where
  "refine sz cur mx = \<lfloor>(real_of_int sz / real_of_int cur) * real_of_int mx\<rfloor>"

text \<open>The two walks after the refinement step, as the source orders them.\<close>

definition walk :: "(int \<Rightarrow> real) \<Rightarrow> int \<Rightarrow> int \<Rightarrow> int \<Rightarrow> int option option" where
  "walk width_at mx sz cur =
     (let greater = (cur > mx \<and> sz > 0);
          (sz', cur') = dec_loop width_at mx sz cur
      in if \<not> greater then inc_loop width_at mx sz' cur'
         else Some (px_or_undefined sz'))"

definition maxFontSize :: "(int \<Rightarrow> real) \<Rightarrow> int \<Rightarrow> (fit_error + int option) option" where
  "maxFontSize width_at mx =
     (let sz0 = mx div 2;
          cur0 = compute width_at sz0
      in if cur0 = 0 then Some (Inl NonFiniteSize)
         else
           let sz = refine sz0 cur0 mx;
               cur = compute width_at sz
           in if cur = mx then Some (Inr (px_or_undefined sz))
              else map_option Inr (walk width_at mx sz cur))"

text \<open>
  The variant that the design note asks for: a clean if/else on the search direction,
  the decrement loop only when the direction is "decrease".
\<close>

definition walk_ifelse :: "(int \<Rightarrow> real) \<Rightarrow> int \<Rightarrow> int \<Rightarrow> int \<Rightarrow> int option option" where
  "walk_ifelse width_at mx sz cur =
     (if cur > mx \<and> sz > 0
      then Some (px_or_undefined (fst (dec_loop width_at mx sz cur)))
      else inc_loop width_at mx sz cur)"

definition maxFontSize_ifelse :: "(int \<Rightarrow> real) \<Rightarrow> int \<Rightarrow> (fit_error + int option) option" where
  "maxFontSize_ifelse width_at mx =
     (let sz0 = mx div 2;
          cur0 = compute width_at sz0
      in if cur0 = 0 then Some (Inl NonFiniteSize)
         else
           let sz = refine sz0 cur0 mx;
               cur = compute width_at sz
           in if cur = mx then Some (Inr (px_or_undefined sz))
              else map_option Inr (walk_ifelse width_at mx sz cur))"

text \<open>
  The postcondition of the increment loop, for a loop entered with \<open>cur = compute size\<close>
  within the budget.
\<close>

definition inc_post :: "(int \<Rightarrow> real) \<Rightarrow> int \<Rightarrow> int \<Rightarrow> int \<Rightarrow> int option \<Rightarrow> bool" where
  "inc_post w mx sz cur r \<longleftrightarrow>
     (cur = compute w sz \<longrightarrow> cur \<le> mx \<longrightarrow>
       (\<forall>s. r = Some s \<longrightarrow> compute w s \<le> mx \<and> (compute w s = mx \<or> compute w (s + 1) > mx)))"


text \<open>A width function for the examples: half a pixel of width per pixel of font size.\<close>

definition half_px_width :: "int \<Rightarrow> real" where
  "half_px_width n = real_of_int n / 2"

section \<open>Strings and whitespace\<close>

text \<open>
  A JavaScript string is a sequence of UTF-16 code units, here natural numbers.
  \<open>js\<close> writes an ASCII literal of the source as such a sequence.
\<close>

type_synonym jsstring = "nat list"

definition js :: "string \<Rightarrow> jsstring" where
  "js s = map of_char s"

text \<open>
  The class \<open>\s\<close> of a regular expression, which is also what \<open>trim\<close> strips:
  tab, line feed, vertical tab, form feed, carriage return, space, no-break space,
  U+1680, U+2000 to U+200A, U+2028, U+2029, U+202F, U+205F, U+3000 and U+FEFF.
\<close>

definition isSpace :: "nat \<Rightarrow> bool" where
  "isSpace c \<longleftrightarrow>
     c \<in> {0x09, 0x0A, 0x0B, 0x0C, 0x0D, 0x20, 0xA0, 0x1680, 0x2028, 0x2029, 0x202F, 0x205F,
          0x3000, 0xFEFF}
     \<or> (0x2000 \<le> c \<and> c \<le> 0x200A)"

text \<open>\<open>.replace(/\s+/gm, ' ')\<close>: every maximal run of whitespace becomes one space.\<close>

function collapse :: "jsstring \<Rightarrow> jsstring" where
  "collapse [] = []"
| "collapse (c # cs) =
     (if isSpace c then 0x20 # collapse (dropWhile isSpace cs) else c # collapse cs)"
  by pat_completeness auto
termination
  by (relation "measure length") (auto simp add: length_dropWhile_le less_Suc_eq_le)

text \<open>\<open>.replace(/[\r\n]/gm, ' ')\<close>\<close>

definition newlines_to_spaces :: "jsstring \<Rightarrow> jsstring" where
  "newlines_to_spaces s = map (\<lambda>c. if c = 0x0D \<or> c = 0x0A then 0x20 else c) s"

definition trimStart :: "jsstring \<Rightarrow> jsstring" where
  "trimStart s = dropWhile isSpace s"

definition trimEnd :: "jsstring \<Rightarrow> jsstring" where
  "trimEnd s = rev (dropWhile isSpace (rev s))"

definition trim :: "jsstring \<Rightarrow> jsstring" where
  "trim s = trimStart (trimEnd s)"

text \<open>\<open>text || ''\<close>: \<open>undefined\<close> (here \<open>None\<close>) and the empty string give the empty string.\<close>

definition or_empty :: "jsstring option \<Rightarrow> jsstring" where
  "or_empty text = (case text of None \<Rightarrow> [] | Some t \<Rightarrow> t)"

text \<open>
  \<open>normalizeWhitespace(text, ws)\<close>. The \<open>switch\<close> compares \<open>ws\<close> with the three
  policy names; a missing \<open>ws\<close> takes the default branch.
\<close>

definition normalizeWhitespace :: "jsstring option \<Rightarrow> jsstring option \<Rightarrow> jsstring option" where
  "normalizeWhitespace text ws =
     (if ws = Some (js ''pre'') then text
      else if ws = Some (js ''pre-wrap'') then text
      else if ws = Some (js ''pre-line'') then Some (trim (collapse (or_empty text)))
      else Some (trim (collapse (newlines_to_spaces (or_empty text)))))"

subsection \<open>\<open>prepareText\<close>\<close>

text \<open>
  A character of a pattern under the flag \<open>i\<close>: an ASCII lower-case letter of the
  pattern matches itself and its upper-case letter, every other pattern character
  matches itself only (no character outside ASCII is canonicalised to an ASCII one).
\<close>

definition ci_eq :: "nat \<Rightarrow> nat \<Rightarrow> bool" where
  "ci_eq p c \<longleftrightarrow> c = p \<or> (0x61 \<le> p \<and> p \<le> 0x7A \<and> c + 0x20 = p)"

text \<open>
  Matching a literal pattern at the start of a string: the rest of the string after
  the match, or \<open>None\<close>.
\<close>

fun strip_ci :: "jsstring \<Rightarrow> jsstring \<Rightarrow> jsstring option" where
  "strip_ci [] s = Some s"
| "strip_ci (p # ps) [] = None"
| "strip_ci (p # ps) (c # cs) = (if ci_eq p c then strip_ci ps cs else None)"

text \<open>
  \<open>/<br\s*\/?>/gi\<close> at the start of a string: \<open><br\<close>, the whole run of whitespace,
  an optional slash, and \<open>>\<close>. Neither the slash nor \<open>>\<close> is whitespace, so
  backtracking into the run cannot produce another match.
\<close>

definition match_br :: "jsstring \<Rightarrow> jsstring option" where
  "match_br s =
     (case strip_ci (js ''<br'') s of
        None \<Rightarrow> None
      | Some r \<Rightarrow>
          (let r1 = dropWhile isSpace r;
               r2 = (case r1 of [] \<Rightarrow> r1 | c # t \<Rightarrow> if c = 0x2F then t else r1)
           in case r2 of [] \<Rightarrow> None | c # t \<Rightarrow> if c = 0x3E then Some t else None))"

text \<open>
  \<open>.replace(pattern, replacement)\<close> with the flag \<open>g\<close>: scan from the left, replace a
  match and go on after it, otherwise keep the character and go on at the next one.
  The matcher \<open>m\<close> returns the rest after a match at the start. The patterns of the
  source match at least one character; the test on the lengths makes the scan total
  for every matcher.
\<close>

function replace_all :: "(jsstring \<Rightarrow> jsstring option) \<Rightarrow> jsstring \<Rightarrow> jsstring \<Rightarrow> jsstring" where
  "replace_all m r [] = []"
| "replace_all m r (c # cs) =
     (case m (c # cs) of
        None \<Rightarrow> c # replace_all m r cs
      | Some rest \<Rightarrow>
          if length rest \<le> length cs then r @ replace_all m r rest
          else c # replace_all m r cs)"
  by pat_completeness auto
termination
  by (relation "measure (\<lambda>(m, r, s). length s)") auto

text \<open>
  \<open>prepareText\<close>: the four replacements in the order of the source. The warning that
  the source prints about remaining HTML entities does not change the result and is
  not modelled.
\<close>

definition prepareText :: "jsstring option \<Rightarrow> jsstring" where
  "prepareText text =
     replace_all (strip_ci (js ''&mdash;'')) [0x2014]
       (replace_all (strip_ci (js ''&shy;'')) [0xAD]
         (replace_all match_br [0x0A]
           (replace_all (strip_ci (js ''<wbr>'')) [0x200B] (or_empty text))))"

text \<open>A match of \<open>m\<close> somewhere in a string.\<close>

fun occurs :: "(jsstring \<Rightarrow> jsstring option) \<Rightarrow> jsstring \<Rightarrow> bool" where
  "occurs m [] = (m [] \<noteq> None)"
| "occurs m (c # cs) = (m (c # cs) \<noteq> None \<or> occurs m cs)"

text \<open>
  A string in which every whitespace character is a space that is not followed by
  another whitespace character.
\<close>

fun single_spaced :: "jsstring \<Rightarrow> bool" where
  "single_spaced [] = True"
| "single_spaced [c] = (isSpace c \<longrightarrow> c = 0x20)"
| "single_spaced (c # d # cs) =
     ((isSpace c \<longrightarrow> c = 0x20 \<and> \<not> isSpace d) \<and> single_spaced (d # cs))"

section \<open>Numbers and unit conversion\<close>

text \<open>
  A JavaScript number is a finite value, \<open>NaN\<close> or an infinity (\<open>Infinite True\<close> is the
  negative one). Finite values are real numbers: the rounding of IEEE doubles is not
  part of the model.
\<close>

datatype jsnumber = Fin real | NaN | Infinite bool

fun js_times :: "jsnumber \<Rightarrow> jsnumber \<Rightarrow> jsnumber" where
  "js_times NaN y = NaN"
| "js_times x NaN = NaN"
| "js_times (Fin a) (Fin b) = Fin (a * b)"
| "js_times (Infinite s) (Fin b) = (if b = 0 then NaN else Infinite (s \<noteq> (b < 0)))"
| "js_times (Fin a) (Infinite t) = (if a = 0 then NaN else Infinite (t \<noteq> (a < 0)))"
| "js_times (Infinite s) (Infinite t) = Infinite (s \<noteq> t)"

fun js_plus :: "jsnumber \<Rightarrow> jsnumber \<Rightarrow> jsnumber" where
  "js_plus NaN y = NaN"
| "js_plus x NaN = NaN"
| "js_plus (Fin a) (Fin b) = Fin (a + b)"
| "js_plus (Infinite s) (Fin b) = Infinite s"
| "js_plus (Fin a) (Infinite t) = Infinite t"
| "js_plus (Infinite s) (Infinite t) = (if s = t then Infinite s else NaN)"

text \<open>Division by a positive finite number.\<close>

fun js_divide :: "jsnumber \<Rightarrow> real \<Rightarrow> jsnumber" where
  "js_divide (Fin a) d = Fin (a / d)"
| "js_divide x d = x"

text \<open>\<open>x <= y\<close> and \<open>x > y\<close>: false as soon as one side is \<open>NaN\<close>.\<close>

fun js_le :: "jsnumber \<Rightarrow> jsnumber \<Rightarrow> bool" where
  "js_le NaN y = False"
| "js_le x NaN = False"
| "js_le (Fin a) (Fin b) = (a \<le> b)"
| "js_le (Infinite s) (Fin b) = s"
| "js_le (Fin a) (Infinite t) = (\<not> t)"
| "js_le (Infinite s) (Infinite t) = (s \<or> \<not> t)"

fun js_gt :: "jsnumber \<Rightarrow> jsnumber \<Rightarrow> bool" where
  "js_gt NaN y = False"
| "js_gt x NaN = False"
| "js_gt (Fin a) (Fin b) = (a > b)"
| "js_gt (Infinite s) (Fin b) = (\<not> s)"
| "js_gt (Fin a) (Infinite t) = t"
| "js_gt (Infinite s) (Infinite t) = (\<not> s \<and> t)"

text \<open>\<open>Math.round\<close> rounds halves up; \<open>Math.ceil\<close>.\<close>

fun js_round :: "jsnumber \<Rightarrow> jsnumber" where
  "js_round (Fin a) = Fin (real_of_int \<lfloor>a + 1 / 2\<rfloor>)"
| "js_round x = x"

fun js_ceil :: "jsnumber \<Rightarrow> jsnumber" where
  "js_ceil (Fin a) = Fin (real_of_int \<lceil>a\<rceil>)"
| "js_ceil x = x"

subsection \<open>\<open>Number.parseFloat\<close>\<close>

text \<open>
  What \<open>parseFloat\<close> reads: nothing (\<open>NaN\<close>), a signed \<open>Infinity\<close>, or a signed
  decimal \<open>m \<times> 10\<^sup>e\<close> (sign, \<open>m\<close>, \<open>e\<close>).
\<close>

datatype parsed = PNaN | PInf bool | PDec bool nat int

definition isDigit :: "nat \<Rightarrow> bool" where
  "isDigit c \<longleftrightarrow> 0x30 \<le> c \<and> c \<le> 0x39"

definition digits_value :: "jsstring \<Rightarrow> nat" where
  "digits_value ds = foldl (\<lambda>a c. 10 * a + (c - 0x30)) 0 ds"

text \<open>An optional sign: whether it is a minus, and the rest.\<close>

definition take_sign :: "jsstring \<Rightarrow> bool \<times> jsstring" where
  "take_sign s =
     (case s of
        [] \<Rightarrow> (False, s)
      | c # r \<Rightarrow> if c = 0x2D then (True, r) else if c = 0x2B then (False, r) else (False, s))"

text \<open>
  The exponent part, \<open>e\<close> or \<open>E\<close>, an optional sign and at least one digit; without
  a digit there is no exponent part and the literal ends before the \<open>e\<close>.
\<close>

definition parse_exponent :: "jsstring \<Rightarrow> int" where
  "parse_exponent s =
     (case s of
        [] \<Rightarrow> 0
      | c # t \<Rightarrow>
          if c = 0x65 \<or> c = 0x45
          then (let (neg, t') = take_sign t; ds = takeWhile isDigit t'
                in if ds = [] then 0
                   else if neg then - int (digits_value ds) else int (digits_value ds))
          else 0)"

text \<open>
  \<open>parseFloat\<close>: leading whitespace is skipped, then the longest prefix that is a
  decimal literal is read: a sign, then \<open>Infinity\<close>, or digits with an optional
  fraction, or a fraction starting with the point, and an optional exponent part.
\<close>

definition parseFloat :: "jsstring \<Rightarrow> parsed" where
  "parseFloat s =
     (let (neg, u) = take_sign (trimStart s)
      in if prefix (js ''Infinity'') u then PInf neg
         else
           let ip = takeWhile isDigit u; r1 = dropWhile isDigit u
           in case r1 of
                [] \<Rightarrow> if ip = [] then PNaN else PDec neg (digits_value ip) 0
              | c # r \<Rightarrow>
                  if c = 0x2E
                  then (let fp = takeWhile isDigit r; r2 = dropWhile isDigit r
                        in if ip = [] \<and> fp = [] then PNaN
                           else PDec neg (digits_value (ip @ fp))
                                  (parse_exponent r2 - int (length fp)))
                  else if ip = [] then PNaN
                  else PDec neg (digits_value ip) (parse_exponent r1))"

definition number_of :: "parsed \<Rightarrow> jsnumber" where
  "number_of p =
     (case p of
        PNaN \<Rightarrow> NaN
      | PInf neg \<Rightarrow> Infinite neg
      | PDec neg m e \<Rightarrow>
          Fin ((if neg then - 1 else 1) * real m
               * (if 0 \<le> e then 10 ^ nat e else 1 / 10 ^ nat (- e))))"

subsection \<open>\<open>Number.prototype.toString\<close>\<close>

text \<open>The decimal digits of a natural number.\<close>

fun decimal :: "nat \<Rightarrow> jsstring" where
  "decimal n = (if n < 10 then [0x30 + n] else decimal (n div 10) @ [0x30 + n mod 10])"

declare decimal.simps [simp del]

text \<open>Trailing zeros of the mantissa go into the exponent.\<close>

function strip_zeros :: "nat \<Rightarrow> int \<Rightarrow> nat \<times> int" where
  "strip_zeros m e = (if 0 < m \<and> m mod 10 = 0 then strip_zeros (m div 10) (e + 1) else (m, e))"
  by pat_completeness auto
termination
  by (relation "measure (\<lambda>(m, e). m)") auto

declare strip_zeros.simps [simp del]

text \<open>
  The string of a number, as \<open>Number::toString\<close> writes it from the digits \<open>s\<close>, their
  count \<open>k\<close> and the position \<open>n\<close> of the decimal point: plain digits with zeros,
  digits around a point, \<open>0.\<close> with leading zeros for \<open>-6 < n \<le> 0\<close>, and the
  exponent notation otherwise. For a double the digits are the shortest that read back
  as the same double; for a decimal of at most 15 significant digits in the normal
  range these are the digits of the decimal itself. Outside that range the model
  gives no string (\<open>None\<close>).
\<close>

definition toString_dec :: "bool \<Rightarrow> nat \<Rightarrow> int \<Rightarrow> jsstring option" where
  "toString_dec neg m e =
     (if m = 0 then Some (js ''0'')
      else
        let (s, e') = strip_zeros m e;
            ds = decimal s;
            k = length ds;
            n = int k + e';
            body =
              (if int k \<le> n \<and> n \<le> 21 then ds @ replicate (nat (n - int k)) 0x30
               else if 0 < n \<and> n \<le> 21 then take (nat n) ds @ [0x2E] @ drop (nat n) ds
               else if - 6 < n \<and> n \<le> 0 then js ''0.'' @ replicate (nat (- n)) 0x30 @ ds
               else
                 (if k = 1 then ds else take 1 ds @ [0x2E] @ drop 1 ds)
                 @ [0x65] @ (if 0 \<le> n - 1 then [0x2B] else [0x2D]) @ decimal (nat \<bar>n - 1\<bar>))
        in if k \<le> 15 \<and> - 300 \<le> n \<and> n \<le> 300
           then Some ((if neg then [0x2D] else []) @ body)
           else None)"

definition toString :: "parsed \<Rightarrow> jsstring option" where
  "toString p =
     (case p of
        PNaN \<Rightarrow> Some (js ''NaN'')
      | PInf neg \<Rightarrow> Some ((if neg then [0x2D] else []) @ js ''Infinity'')
      | PDec neg m e \<Rightarrow> toString_dec neg m e)"

subsection \<open>\<open>pxValue\<close>\<close>

text \<open>\<open>value_.replace(str, '')\<close> with a string pattern: the first occurrence is removed.\<close>

fun remove_first :: "jsstring \<Rightarrow> jsstring \<Rightarrow> jsstring" where
  "remove_first pat [] = []"
| "remove_first pat (c # cs) =
     (if prefix pat (c # cs) then drop (length pat) (c # cs) else c # remove_first pat cs)"

text \<open>
  The errors of the model: an \<open>Error\<close> thrown by the source, with its message, the
  \<open>TypeError\<close> of reading a property of \<open>undefined\<close>, and \<open>OutsideModel\<close> where the
  model does not follow the doubles (see \<open>toString_dec\<close>).
\<close>

datatype js_error = Error jsstring | TypeError | OutsideModel

text \<open>
  \<open>Number.parseInt(prop(options, 'base-font-size', 16), 10)\<close>, for an option that is
  absent or an integer number: \<open>prop\<close> falls back to 16 when the option is falsy.
\<close>

definition baseFontSize :: "int option \<Rightarrow> int" where
  "baseFontSize opt = (case opt of None \<Rightarrow> 16 | Some b \<Rightarrow> if b = 0 then 16 else b)"

definition unit_of :: "jsstring \<Rightarrow> jsstring option" where
  "unit_of val =
     (case toString (parseFloat val) of
        None \<Rightarrow> None
      | Some str \<Rightarrow> Some (remove_first str val))"

definition pxValue :: "jsstring \<Rightarrow> int option \<Rightarrow> js_error + jsnumber" where
  "pxValue val opt =
     (let base = baseFontSize opt;
          v = number_of (parseFloat val)
      in case unit_of val of
           None \<Rightarrow> Inl OutsideModel
         | Some unit \<Rightarrow>
             if unit = js ''rem'' \<or> unit = js ''em'' then Inr (js_times v (Fin (real_of_int base)))
             else if unit = js ''pt'' then Inr (js_divide v (96 / 72))
             else if unit = js ''px'' then Inr v
             else Inl (Error (js ''The unit '' @ unit @ js '' is not supported'')))"


section \<open>Line breaking\<close>

subsection \<open>Break classes\<close>

text \<open>
  The sets of the source hold strings. A literal written as backslash, u and five
  hexadecimal digits is the escape of the first four digits followed by the fifth digit
  as a character: a string of two code units, which no single character equals.
\<close>

definition B2 :: "jsstring list" where
  "B2 = [[0x2014]]"

definition SHY :: "jsstring list" where
  "SHY = [[0x00AD]]"

definition BAI :: "jsstring list" where
  "BAI = [[0x0020], [0x1680], [0x2000], [0x2001], [0x2002], [0x2003], [0x2004], [0x2005],
          [0x2006], [0x2008], [0x2009], [0x200A], [0x205F], [0x3000], [0x0009], [0x200B],
          [0x2028], [0x2029]]"

definition BA :: "jsstring list" where
  "BA = [[0x058A], [0x2010], [0x2012], [0x2013], [0x05BE], [0x0F0B], [0x1361], [0x17D8],
         [0x17DA], [0x2027], [0x007C], [0x16EB], [0x16EC], [0x16ED], [0x2056], [0x2058],
         [0x2059], [0x205A], [0x205B], [0x205D], [0x205E], [0x2E19], [0x2E2A], [0x2E2B],
         [0x2E2C], [0x2E2D], [0x2E30], [0x1010, 0x30], [0x1010, 0x31], [0x1010, 0x32],
         [0x1039, 0x46], [0x103D, 0x30], [0x1091, 0x46], [0x1247, 0x30]]"

definition BB :: "jsstring list" where
  "BB = [[0x00B4], [0x1FFD]]"

definition BK :: "jsstring list" where
  "BK = [[0x000A]]"

text \<open>\<open>Set.prototype.has\<close>\<close>

definition has :: "jsstring list \<Rightarrow> jsstring \<Rightarrow> bool" where
  "has S x \<longleftrightarrow> x \<in> set S"

datatype break_type = TyB2 | TyBAI | TySHY | TyBA | TyBB | TyBK

text \<open>\<open>checkBreak\<close>: the first set that has the character; \<open>None\<close> for the falsy result.\<close>

definition checkBreak :: "jsstring \<Rightarrow> break_type option" where
  "checkBreak chr =
     (if has B2 chr then Some TyB2
      else if has BAI chr then Some TyBAI
      else if has SHY chr then Some TySHY
      else if has BA chr then Some TyBA
      else if has BB chr then Some TyBB
      else if has BK chr then Some TyBK
      else None)"

text \<open>
  \<open>for (const chr of text)\<close> iterates by code point: a high surrogate followed by a
  low surrogate is one character of two code units.
\<close>

fun chars_of :: "jsstring \<Rightarrow> jsstring list" where
  "chars_of [] = []"
| "chars_of [c] = [[c]]"
| "chars_of (c # d # cs) =
     (if 0xD800 \<le> c \<and> c \<le> 0xDBFF \<and> 0xDC00 \<le> d \<and> d \<le> 0xDFFF
      then [c, d] # chars_of cs
      else [c] # chars_of (d # cs))"

subsection \<open>Spacing\<close>

text \<open>
  The closure that \<open>addWordAndLetterSpacing\<close> returns:
  \<open>words = text.trim().replace(/\s+/gi, ' ').split(' ').length - 1\<close> is the number of
  spaces left after trimming and collapsing, \<open>chars = text.length\<close>.
\<close>

definition addSpacing :: "jsnumber \<Rightarrow> jsnumber \<Rightarrow> jsstring \<Rightarrow> jsnumber" where
  "addSpacing wordAddon letterAddon text =
     (let words = count_list (collapse (trim text)) 0x20;
          chars = length text
      in js_plus (js_times (Fin (real words)) wordAddon)
                 (js_times (Fin (real chars)) letterAddon))"

definition blacklist :: "jsstring list" where
  "blacklist = [js ''inherit'', js ''initial'', js ''unset'', js ''normal'']"

text \<open>
  One of the two add-ons: zero for a missing or empty value and for a keyword of the
  blacklist, otherwise \<open>pxValue\<close> of the value, whose error is not caught.
\<close>

definition addon :: "jsstring option \<Rightarrow> js_error + jsnumber" where
  "addon v =
     (case v of
        None \<Rightarrow> Inr (Fin 0)
      | Some s \<Rightarrow> if s \<noteq> [] \<and> \<not> has blacklist s then pxValue s None else Inr (Fin 0))"

definition addWordAndLetterSpacing ::
  "jsstring option \<Rightarrow> jsstring option \<Rightarrow> js_error + (jsstring \<Rightarrow> jsnumber)" where
  "addWordAndLetterSpacing ws ls =
     (case addon ws of
        Inl e \<Rightarrow> Inl e
      | Inr wordAddon \<Rightarrow>
          (case addon ls of
             Inl e \<Rightarrow> Inl e
           | Inr letterAddon \<Rightarrow> Inr (addSpacing wordAddon letterAddon)))"

subsection \<open>The parameters\<close>

text \<open>
  \<open>ctx\<close> is \<open>parameters.ctx.measureText(s).width\<close> for the font of the context, a
  finite number. A missing text is \<open>None\<close>; \<open>maxW\<close> is the field \<open>max\<close>.
\<close>

record ComputeLinesParams =
  ctx :: "jsstring \<Rightarrow> real"
  "text" :: "jsstring option"
  maxW :: jsnumber
  wordSpacing :: "jsstring option"
  letterSpacing :: "jsstring option"

record Breakpoint =
  chr :: jsstring
  type :: break_type

text \<open>\<open>ctx.measureText(s).width + addSpacing(s)\<close>\<close>

definition rawWidth :: "(jsstring \<Rightarrow> real) \<Rightarrow> (jsstring \<Rightarrow> jsnumber) \<Rightarrow> jsstring \<Rightarrow> jsnumber" where
  "rawWidth measureText spacing s = js_plus (Fin (measureText s)) (spacing s)"

subsection \<open>The default policy\<close>

text \<open>
  The first loop of \<open>computeLinesDefault\<close>: the state is the current part, the parts
  and the breakpoints so far.
\<close>

fun scan_parts ::
  "jsstring list \<Rightarrow> jsstring \<Rightarrow> jsstring list \<Rightarrow> Breakpoint list
   \<Rightarrow> jsstring \<times> jsstring list \<times> Breakpoint list" where
  "scan_parts [] part parts breakpoints = (part, parts, breakpoints)"
| "scan_parts (c # rest) part parts breakpoints =
     (let ty = checkBreak c
      in if part = [] \<and> ty = Some TyBAI then scan_parts rest part parts breakpoints
         else case ty of
                Some t \<Rightarrow>
                  scan_parts rest [] (parts @ [part]) (breakpoints @ [\<lparr>chr = c, type = t\<rparr>])
              | None \<Rightarrow> scan_parts rest (part @ c) parts breakpoints)"

text \<open>The parts and breakpoints of a text, with the last part pushed when it is not empty.\<close>

definition text_parts :: "jsstring \<Rightarrow> jsstring list \<times> Breakpoint list" where
  "text_parts t =
     (let (part, parts, breakpoints) = scan_parts (chars_of t) [] [] []
      in (if part \<noteq> [] then parts @ [part] else parts, breakpoints))"

text \<open>
  The \<open>switch\<close> on the type of the breakpoint when the line is too long: the lines
  pushed and the new current line. The tie-break of \<open>B2\<close> compares the two secondary
  widths as they are measured. \<open>BK\<close> is handled before the measurement and is the
  \<open>default\<close> branch here.
\<close>

definition split_at ::
  "(jsstring \<Rightarrow> real) \<Rightarrow> (jsstring \<Rightarrow> jsnumber) \<Rightarrow> jsnumber \<Rightarrow> break_type \<Rightarrow> jsstring
   \<Rightarrow> jsstring \<Rightarrow> jsstring \<Rightarrow> js_error + (jsstring list \<times> jsstring)" where
  "split_at measureText spacing mx ty line c part =
     (case ty of
        TySHY \<Rightarrow> Inr ([line @ js ''-''], part)
      | TyBA \<Rightarrow> Inr ([line @ c], part)
      | TyBAI \<Rightarrow> Inr ([line], part)
      | TyBB \<Rightarrow> Inr ([line], c @ part)
      | TyB2 \<Rightarrow>
          if js_le (rawWidth measureText spacing (line @ c)) mx then Inr ([line @ c], part)
          else if js_le (rawWidth measureText spacing (c @ part)) mx then Inr ([line], c @ part)
          else Inr ([line, c], part)
      | TyBK \<Rightarrow> Inl (Error (js ''Undefoined break'')))"

text \<open>
  The body of the second loop, \<open>for (let i = 0; i < parts.length; i++)\<close>, for an
  index within the parts: from the current line and the lines so far to the next ones.
  \<open>pack_at\<close> is the body from the breakpoint on. Reading \<open>breakpoints[i - 1]\<close> out
  of range gives \<open>undefined\<close>, whose \<open>type\<close> cannot be read.
\<close>

definition pack_at ::
  "(jsstring \<Rightarrow> real) \<Rightarrow> (jsstring \<Rightarrow> jsnumber) \<Rightarrow> jsnumber \<Rightarrow> Breakpoint \<Rightarrow> jsstring
   \<Rightarrow> jsstring \<Rightarrow> jsstring list \<Rightarrow> js_error + (jsstring \<times> jsstring list)" where
  "pack_at measureText spacing mx breakpoint part line lines =
     (let c = (if type breakpoint = TySHY then [] else chr breakpoint)
      in if type breakpoint = TyBK then Inr (part, lines @ [line])
         else
           let width = js_round (rawWidth measureText spacing (line @ c @ part))
           in if js_le width mx then Inr (line @ c @ part, lines)
              else
                (case split_at measureText spacing mx (type breakpoint) line c part of
                   Inl e \<Rightarrow> Inl e
                 | Inr (pushed, line') \<Rightarrow> Inr (line', lines @ pushed)))"

definition pack_step ::
  "(jsstring \<Rightarrow> real) \<Rightarrow> (jsstring \<Rightarrow> jsnumber) \<Rightarrow> jsnumber \<Rightarrow> jsstring list \<Rightarrow> Breakpoint list
   \<Rightarrow> nat \<Rightarrow> jsstring \<Rightarrow> jsstring list \<Rightarrow> js_error + (jsstring \<times> jsstring list)" where
  "pack_step measureText spacing mx parts breakpoints i line lines =
     (if i = 0 then Inr (parts ! i, lines)
      else if has BAI (parts ! (i - 1)) \<and> has BAI (parts ! i) then Inr (line, lines)
      else if \<not> i - 1 < length breakpoints then Inl TypeError
      else pack_at measureText spacing mx (breakpoints ! (i - 1)) (parts ! i) line lines)"

function pack_parts ::
  "(jsstring \<Rightarrow> real) \<Rightarrow> (jsstring \<Rightarrow> jsnumber) \<Rightarrow> jsnumber \<Rightarrow> jsstring list \<Rightarrow> Breakpoint list
   \<Rightarrow> nat \<Rightarrow> jsstring \<Rightarrow> jsstring list \<Rightarrow> js_error + (jsstring \<times> jsstring list)" where
  "pack_parts measureText spacing mx parts breakpoints i line lines =
     (if i < length parts then
        (case pack_step measureText spacing mx parts breakpoints i line lines of
           Inl e \<Rightarrow> Inl e
         | Inr (line', lines') \<Rightarrow>
             pack_parts measureText spacing mx parts breakpoints (i + 1) line' lines')
      else Inr (line, lines))"
  by pat_completeness auto
termination
  by (relation "measure (\<lambda>(m, s, mx, parts, bps, i, line, lines). length parts - i)") auto

declare pack_parts.simps [simp del]

text \<open>\<open>!parameters.text\<close>: the text is missing or empty.\<close>

definition no_text :: "jsstring option \<Rightarrow> bool" where
  "no_text t \<longleftrightarrow> t = None \<or> t = Some []"

definition computeLinesDefault :: "ComputeLinesParams \<Rightarrow> js_error + jsstring list" where
  "computeLinesDefault parameters =
     (case addWordAndLetterSpacing (wordSpacing parameters) (letterSpacing parameters) of
        Inl e \<Rightarrow> Inl e
      | Inr spacing \<Rightarrow>
          if no_text (text parameters) then Inr []
          else
            let (parts, breakpoints) = text_parts (or_empty (text parameters))
            in case pack_parts (ctx parameters) spacing (maxW parameters) parts breakpoints 0 [] [] of
                 Inl e \<Rightarrow> Inl e
               | Inr (line, lines) \<Rightarrow> Inr (if line \<noteq> [] then lines @ [line] else lines))"

subsection \<open>The break-all policy\<close>

text \<open>\<open>parameters.text[index + 1] || ''\<close>: a code unit of the text, or the empty string.\<close>

definition unit_at :: "jsstring \<Rightarrow> nat \<Rightarrow> jsstring" where
  "unit_at t j = (if j < length t then [t ! j] else [])"

text \<open>
  The body of the loop of \<open>computeLinesBreakAll\<close> for one character: the state is the
  current line, the lines so far and \<open>index\<close>, which the two \<open>continue\<close> statements
  do not increment.
\<close>

definition break_all_step ::
  "(jsstring \<Rightarrow> real) \<Rightarrow> (jsstring \<Rightarrow> jsnumber) \<Rightarrow> jsnumber \<Rightarrow> jsstring \<Rightarrow> jsstring
   \<Rightarrow> jsstring \<times> jsstring list \<times> nat \<Rightarrow> jsstring \<times> jsstring list \<times> nat" where
  "break_all_step measureText spacing mx t c st =
     (let (line, lines, index) = st;
          ty = checkBreak c
      in if ty = Some TyBK then ([], lines @ [line], index)
         else if has BAI c \<and> (length line = 0 \<or> has BAI [last line]) then (line, lines, index)
         else
           let width =
                 (if ty = Some TySHY
                  then js_ceil (rawWidth measureText spacing (line @ c @ unit_at t (index + 1)))
                  else js_ceil (rawWidth measureText spacing (line @ c)))
           in if js_gt width mx \<and> line \<noteq> []
              then (case ty of
                      Some TySHY \<Rightarrow> ([], lines @ [line @ js ''-''], index + 1)
                    | Some TyBA \<Rightarrow> ([], lines @ [line @ c], index + 1)
                    | Some TyBAI \<Rightarrow> ([], lines @ [line], index + 1)
                    | _ \<Rightarrow> (c, lines @ [line], index + 1))
              else if c \<noteq> [0x00AD] then (line @ c, lines, index + 1)
              else (line, lines, index + 1))"

fun break_all ::
  "(jsstring \<Rightarrow> real) \<Rightarrow> (jsstring \<Rightarrow> jsnumber) \<Rightarrow> jsnumber \<Rightarrow> jsstring \<Rightarrow> jsstring list
   \<Rightarrow> jsstring \<times> jsstring list \<times> nat \<Rightarrow> jsstring \<times> jsstring list \<times> nat" where
  "break_all measureText spacing mx t [] st = st"
| "break_all measureText spacing mx t (c # rest) st =
     break_all measureText spacing mx t rest (break_all_step measureText spacing mx t c st)"

definition computeLinesBreakAll :: "ComputeLinesParams \<Rightarrow> js_error + jsstring list" where
  "computeLinesBreakAll parameters =
     (case addWordAndLetterSpacing (wordSpacing parameters) (letterSpacing parameters) of
        Inl e \<Rightarrow> Inl e
      | Inr spacing \<Rightarrow>
          if no_text (text parameters) then Inr []
          else
            let t = or_empty (text parameters);
                (line, lines, index) =
                  break_all (ctx parameters) spacing (maxW parameters) t (chars_of t) ([], [], 0)
            in Inr (if line \<noteq> [] then lines @ [line] else lines))"

text \<open>Widths for the examples: one pixel for every code unit, and a constant more.\<close>

definition unit_width_plus :: "real \<Rightarrow> jsstring \<Rightarrow> real" where
  "unit_width_plus d s = real (length s) + d"

definition unit_width :: "jsstring \<Rightarrow> real" where
  "unit_width = unit_width_plus 0"

definition unit_width_wide :: "jsstring \<Rightarrow> real" where
  "unit_width_wide = unit_width_plus (4 / 10)"

section \<open>The facade: \<open>parseArgs\<close>, \<open>lines\<close> and \<open>width\<close>\<close>

text \<open>
  What an instance and a call resolve to before the text is measured: the text content
  of the element when the instance has one, the resolved style values, the width of
  the box after the padding, the option \<open>multiline\<close>, and the two capabilities of the
  host, the case mapping of \<open>text-transform\<close> and the measurement of a string under
  the font of a given size. Weight, style, variant and family of the font are fixed
  for an instance and are part of \<open>measureAt\<close>.
\<close>

record Resolved =
  elText :: "jsstring option"
  whiteSpace :: "jsstring option"
  fontSize :: jsstring
  styleWordSpacing :: "jsstring option"
  styleLetterSpacing :: "jsstring option"
  wordBreak :: "jsstring option"
  boxWidth :: jsnumber
  multiline :: bool
  textTransform :: "jsstring \<Rightarrow> jsstring"
  measureAt :: "jsnumber \<Rightarrow> jsstring \<Rightarrow> real"

text \<open>
  The text that \<open>parseArgs\<close> returns: the normalised text of the element when no text
  is given and there is an element, otherwise the prepared, normalised text.
\<close>

definition parseArgs_text :: "Resolved \<Rightarrow> jsstring option \<Rightarrow> jsstring option" where
  "parseArgs_text r t =
     (if no_text t \<and> elText r \<noteq> None
      then normalizeWhitespace (elText r) (whiteSpace r)
      else Some (prepareText (normalizeWhitespace t None)))"

text \<open>\<open>getFont\<close>, as far as the size goes: \<open>pxValue(fontSize)\<close>, whose error is not caught.\<close>

definition getFont :: "Resolved \<Rightarrow> js_error + jsnumber" where
  "getFont r = pxValue (fontSize r) None"

definition lines :: "Resolved \<Rightarrow> jsstring option \<Rightarrow> js_error + jsstring list" where
  "lines r t =
     (let parsed = parseArgs_text r t
      in case getFont r of
           Inl e \<Rightarrow> Inl e
         | Inr font \<Rightarrow>
             let parameters =
                   \<lparr>ctx = measureAt r font,
                    text = map_option (textTransform r) parsed,
                    maxW = boxWidth r,
                    wordSpacing = styleWordSpacing r,
                    letterSpacing = styleLetterSpacing r\<rparr>
             in if wordBreak r = Some (js ''break-all'') then computeLinesBreakAll parameters
                else computeLinesDefault parameters)"

text \<open>\<open>Math.max\<close> of two numbers.\<close>

fun js_max :: "jsnumber \<Rightarrow> jsnumber \<Rightarrow> jsnumber" where
  "js_max NaN y = NaN"
| "js_max x NaN = NaN"
| "js_max x y = (if js_le x y then y else x)"

definition width :: "Resolved \<Rightarrow> jsstring option \<Rightarrow> js_error + jsnumber" where
  "width r t =
     (let parsed = parseArgs_text r t
      in if no_text parsed then Inr (Fin 0)
         else
           case getFont r of
             Inl e \<Rightarrow> Inl e
           | Inr font \<Rightarrow>
               (case addWordAndLetterSpacing (styleWordSpacing r) (styleLetterSpacing r) of
                  Inl e \<Rightarrow> Inl e
                | Inr spacing \<Rightarrow>
                    let styledText = textTransform r (or_empty parsed)
                    in if multiline r
                       then (case lines r (Some styledText) of
                               Inl e \<Rightarrow> Inl e
                             | Inr ls \<Rightarrow>
                                 Inr (foldl (\<lambda>previousValue currentValue.
                                        js_max previousValue
                                          (rawWidth (measureAt r font) spacing currentValue))
                                      (Fin 0) ls))
                       else Inr (rawWidth (measureAt r font) spacing styledText)))"

text \<open>Parameters and an instance for the examples.\<close>

definition example_params :: "jsstring \<Rightarrow> real \<Rightarrow> ComputeLinesParams" where
  "example_params t m =
     \<lparr>ctx = unit_width, text = Some t, maxW = Fin m, wordSpacing = None, letterSpacing = None\<rparr>"

definition example_instance :: Resolved where
  "example_instance =
     \<lparr>elText = None, whiteSpace = None, fontSize = js ''16px'', styleWordSpacing = None,
      styleLetterSpacing = None, wordBreak = None, boxWidth = Fin 100, multiline = False,
      textTransform = (\<lambda>s. s), measureAt = (\<lambda>size. unit_width)\<rparr>"

text \<open>
  A spacing value that \<open>addWordAndLetterSpacing\<close> accepts: missing, empty, a keyword of
  the blacklist, or a value that \<open>pxValue\<close> converts.
\<close>

definition converts :: "jsstring option \<Rightarrow> bool" where
  "converts v \<longleftrightarrow>
     (case v of
        None \<Rightarrow> True
      | Some s \<Rightarrow> s = [] \<or> has blacklist s \<or> (\<exists>n. pxValue s None = Inr n))"

section \<open>Predicates on lines\<close>

text \<open>The test of the default policy: the rounded width is at most the maximum.\<close>

definition fits :: "(jsstring \<Rightarrow> real) \<Rightarrow> (jsstring \<Rightarrow> jsnumber) \<Rightarrow> jsnumber \<Rightarrow> jsstring \<Rightarrow> bool" where
  "fits measureText spacing mx s \<longleftrightarrow> js_le (js_round (rawWidth measureText spacing s)) mx"

text \<open>A single text part, possibly with its \<open>BB\<close> or \<open>B2\<close> boundary character in front.\<close>

definition single_part :: "jsstring list \<Rightarrow> jsstring \<Rightarrow> bool" where
  "single_part parts s \<longleftrightarrow>
     (\<exists>pre part. s = pre @ part \<and> part \<in> set parts
        \<and> (pre = [] \<or> checkBreak pre = Some TyBB \<or> checkBreak pre = Some TyB2))"

definition body_ok ::
  "(jsstring \<Rightarrow> real) \<Rightarrow> (jsstring \<Rightarrow> jsnumber) \<Rightarrow> jsnumber \<Rightarrow> jsstring list \<Rightarrow> jsstring \<Rightarrow> bool" where
  "body_ok measureText spacing mx parts s \<longleftrightarrow>
     fits measureText spacing mx s \<or> single_part parts s"

text \<open>
  A line of the default policy: a forced single \<open>B2\<close> boundary, or a body and at most
  one character appended when the line was closed, the hyphen of a soft-hyphen split
  or the boundary character of a \<open>BA\<close> or \<open>B2\<close> split.
\<close>

definition line_ok ::
  "(jsstring \<Rightarrow> real) \<Rightarrow> (jsstring \<Rightarrow> jsnumber) \<Rightarrow> jsnumber \<Rightarrow> jsstring list \<Rightarrow> jsstring \<Rightarrow> bool" where
  "line_ok measureText spacing mx parts l \<longleftrightarrow>
     checkBreak l = Some TyB2
     \<or> (\<exists>body suf. l = body @ suf \<and> body_ok measureText spacing mx parts body
           \<and> (suf = [] \<or> suf = js ''-'' \<or> checkBreak suf = Some TyBA
                \<or> checkBreak suf = Some TyB2))"

text \<open>Every breakpoint carries the class of its character.\<close>

definition wf_breakpoints :: "Breakpoint list \<Rightarrow> bool" where
  "wf_breakpoints bps \<longleftrightarrow> (\<forall>bp \<in> set bps. checkBreak (chr bp) = Some (type bp))"

text \<open>The rounded widths that the two policies compare with the maximum.\<close>

definition roundedWidth :: "(jsstring \<Rightarrow> real) \<Rightarrow> (jsstring \<Rightarrow> jsnumber) \<Rightarrow> jsstring \<Rightarrow> jsnumber" where
  "roundedWidth measureText spacing = (\<lambda>s. js_round (rawWidth measureText spacing s))"

definition ceiledWidth :: "(jsstring \<Rightarrow> real) \<Rightarrow> (jsstring \<Rightarrow> jsnumber) \<Rightarrow> jsstring \<Rightarrow> jsnumber" where
  "ceiledWidth measureText spacing = (\<lambda>s. js_ceil (rawWidth measureText spacing s))"

text \<open>A string that begins or ends with a \<open>B2\<close> character, as the strings of the tie-break do.\<close>

definition tie_break_string :: "jsstring \<Rightarrow> bool" where
  "tie_break_string s \<longleftrightarrow> (\<exists>u c. has B2 c \<and> (s = u @ c \<or> s = c @ u))"

text \<open>Whether the unrounded widths of two measurements compare alike with the maximum.\<close>

definition same_tie_breaks ::
  "(jsstring \<Rightarrow> real) \<Rightarrow> (jsstring \<Rightarrow> real) \<Rightarrow> (jsstring \<Rightarrow> jsnumber) \<Rightarrow> jsnumber \<Rightarrow> bool" where
  "same_tie_breaks m1 m2 spacing mx \<longleftrightarrow>
     (\<forall>s. tie_break_string s \<longrightarrow>
        js_le (rawWidth m1 spacing s) mx = js_le (rawWidth m2 spacing s) mx)"

text \<open>The spacing of a text without word spacing and letter spacing.\<close>

definition no_spacing :: "jsstring \<Rightarrow> jsnumber" where
  "no_spacing = addSpacing (Fin 0) (Fin 0)"

text \<open>
  What a round trip compares: the code units of a string that are neither collapsible
  whitespace, nor the mandatory break, nor a soft hyphen, nor the hyphen that a split
  at a soft hyphen writes.
\<close>

definition kept_unit :: "nat \<Rightarrow> bool" where
  "kept_unit u \<longleftrightarrow> \<not> has BAI [u] \<and> u \<noteq> 0x0A \<and> u \<noteq> 0xAD \<and> u \<noteq> 0x2D"

definition visible :: "jsstring \<Rightarrow> jsstring" where
  "visible s = filter kept_unit s"

text \<open>
  The parts with the characters of the breakpoints between them; a breakpoint after
  the last part is left out.
\<close>

fun weave :: "jsstring list \<Rightarrow> Breakpoint list \<Rightarrow> jsstring" where
  "weave [] bs = []"
| "weave [p] bs = p"
| "weave (p # q # ps) [] = p @ weave (q # ps) []"
| "weave (p # q # ps) (b # bs) = p @ chr b @ weave (q # ps) bs"

text \<open>The character of the breakpoint that follows the last part, when there is one.\<close>

definition trailing_boundary :: "jsstring list \<Rightarrow> Breakpoint list \<Rightarrow> jsstring" where
  "trailing_boundary parts bps =
     (if length bps = length parts \<and> bps \<noteq> [] then chr (last bps) else [])"

section \<open>Properties of the font-size search\<close>


lemma inc_loop_step:
  "cur < mx \<Longrightarrow> \<not> compute w (sz + 1) > mx \<Longrightarrow>
   inc_loop w mx sz cur = inc_loop w mx (sz + 1) (compute w (sz + 1))"
  by (subst inc_loop.simps) simp

lemma inc_loop_probe_over:
  "cur < mx \<Longrightarrow> compute w (sz + 1) > mx \<Longrightarrow> inc_loop w mx sz cur = Some (px_or_undefined sz)"
  by (subst inc_loop.simps) simp

lemma inc_loop_exit:
  "\<not> cur < mx \<Longrightarrow> inc_loop w mx sz cur = Some (px_or_undefined sz)"
  by (subst inc_loop.simps) simp

lemma dec_loop_noop: "\<not> (cur > mx \<and> sz > 0) \<Longrightarrow> dec_loop w mx sz cur = (sz, cur)"
  by (subst dec_loop.simps) auto

lemma dec_loop_step:
  "cur > mx \<Longrightarrow> sz > 0 \<Longrightarrow> dec_loop w mx sz cur = dec_loop w mx (sz - 1) (compute w (sz - 1))"
  by (subst dec_loop.simps) simp

lemma dec_loop_inv:
  "dec_loop w mx sz cur = (sz', cur') \<Longrightarrow> cur = compute w sz \<Longrightarrow> 0 \<le> sz \<Longrightarrow>
   0 \<le> sz' \<and> sz' \<le> sz \<and> cur' = compute w sz' \<and> (cur' \<le> mx \<or> sz' = 0) \<and>
   (sz' < sz \<longrightarrow> compute w (sz' + 1) > mx)"
proof (induction w mx sz cur rule: dec_loop.induct)
  case (1 w mx sz cur)
  show ?case
  proof (cases "cur > mx \<and> sz > 0")
    case True
    with "1.prems" have d: "dec_loop w mx (sz - 1) (compute w (sz - 1)) = (sz', cur')"
      by (simp add: dec_loop_step)
    from True have "0 \<le> sz - 1" by simp
    from "1.IH"[OF True d refl this]
    have ih: "0 \<le> sz'" "sz' \<le> sz - 1" "cur' = compute w sz'" "cur' \<le> mx \<or> sz' = 0"
      "sz' < sz - 1 \<longrightarrow> compute w (sz' + 1) > mx" by auto
    have "compute w (sz' + 1) > mx"
      using ih(2,5) True "1.prems"(2) by (cases "sz' = sz - 1") auto
    then show ?thesis using ih by auto
  next
    case False
    with "1.prems" show ?thesis by (auto simp add: dec_loop_noop)
  qed
qed

lemma inc_loop_inv_aux:
  assumes "inc_loop w mx sz cur = Some r"
  shows "inc_post w mx sz cur r"
proof (rule inc_loop.raw_induct[where P = inc_post, OF _ assms])
  fix loop w mx sz cur r
  assume IH: "\<And>w mx sz cur r. loop w mx sz cur = Some r \<Longrightarrow> inc_post w mx sz cur r"
    and body: "(if cur < mx
      then if mx < compute w (sz + 1) then Some (px_or_undefined sz)
           else loop w mx (sz + 1) (compute w (sz + 1))
      else Some (px_or_undefined sz)) = Some r"
  show "inc_post w mx sz cur r"
    unfolding inc_post_def
  proof (intro impI allI)
    fix s
    assume cur: "cur = compute w sz" and le: "cur \<le> mx" and r: "r = Some s"
    show "compute w s \<le> mx \<and> (compute w s = mx \<or> compute w (s + 1) > mx)"
    proof (cases "cur < mx")
      case True
      show ?thesis
      proof (cases "mx < compute w (sz + 1)")
        case over: True
        with True body r have "s = sz"
          by (simp add: px_or_undefined_def split: if_splits)
        with over cur le show ?thesis by simp
      next
        case False
        with True body have "loop w mx (sz + 1) (compute w (sz + 1)) = Some r"
          by simp
        from IH[OF this] False r show ?thesis by (simp add: inc_post_def)
      qed
    next
      case False
      with body r have "s = sz"
        by (simp add: px_or_undefined_def split: if_splits)
      with False cur le show ?thesis by simp
    qed
  qed
qed

lemma inc_loop_inv:
  "inc_loop w mx sz cur = Some (Some s) \<Longrightarrow> cur = compute w sz \<Longrightarrow> cur \<le> mx \<Longrightarrow>
   compute w s \<le> mx \<and> (compute w s = mx \<or> compute w (s + 1) > mx)"
  using inc_loop_inv_aux[of w mx sz cur "Some s"] by (simp add: inc_post_def)

lemma compute_le_iff: "compute w s \<le> mx \<longleftrightarrow> w s \<le> real_of_int mx"
  by (simp add: compute_def ceiling_le_iff)

lemma compute_gt_iff: "compute w s > mx \<longleftrightarrow> w s > real_of_int mx"
  by (simp add: compute_def less_ceiling_iff)

lemma refine_nonneg:
  assumes mx: "0 < mx" and mono: "\<forall>a b. a \<le> b \<longrightarrow> w a \<le> w b"
    and over: "compute w (refine (mx div 2) (compute w (mx div 2)) mx) > mx"
  shows "0 \<le> refine (mx div 2) (compute w (mx div 2)) mx"
proof (rule ccontr)
  let ?seed = "mx div 2" and ?curz = "compute w (mx div 2)"
  let ?rs = "refine ?seed ?curz mx"
  assume "\<not> 0 \<le> ?rs"
  then have neg: "?rs < 0" by simp
  have s0: "0 \<le> ?seed" using mx by simp
  have "\<not> 0 \<le> ?curz"
  proof
    assume "0 \<le> ?curz"
    then have "0 \<le> real_of_int ?seed / real_of_int ?curz"
      using s0 by simp
    moreover have "0 \<le> real_of_int mx" using mx by simp
    ultimately have "0 \<le> real_of_int ?seed / real_of_int ?curz * real_of_int mx"
      by (rule mult_nonneg_nonneg)
    then have "0 \<le> ?rs" unfolding refine_def zero_le_floor .
    with neg show False by simp
  qed
  then have c0: "?curz < 0" by simp
  have "?rs \<le> ?seed" using neg s0 by linarith
  then have "w ?rs \<le> w ?seed" using mono by blast
  then have "compute w ?rs \<le> ?curz" by (simp add: compute_def ceiling_mono)
  with c0 mx over show False by linarith
qed


lemma walk_eq: "walk w mx sz cur = walk_ifelse w mx sz cur"
proof (cases "cur > mx \<and> sz > 0")
  case True
  then show ?thesis
    by (simp add: walk_def walk_ifelse_def split_def)
next
  case False
  then have "dec_loop w mx sz cur = (sz, cur)" by (rule dec_loop_noop)
  with False show ?thesis
    by (auto simp add: walk_def walk_ifelse_def)
qed

lemma half_px_width_mono: "mono half_px_width"
  by (simp add: mono_def half_px_width_def)

lemma maxFontSize_half_10: "maxFontSize half_px_width 10 = Some (Inr (Some 19))"
  by (simp add: maxFontSize_def walk_def dec_loop_noop inc_loop_step inc_loop_exit
      inc_loop_probe_over compute_def px_or_undefined_def refine_def half_px_width_def)

text \<open>
  Claim C1, as stated: a returned size fits the budget and the next size does not.
  With half a pixel of width per pixel of size and a budget of 10 the search settles
  at 19 (width 9.5, rounded up to the budget), and size 20 still fits: the search stops
  as soon as the rounded width equals the budget.
\<close>

theorem C1_counterexample:
  "0 < (10::int) \<and> mono half_px_width
   \<and> maxFontSize half_px_width 10 = Some (Inr (Some 19))
   \<and> \<not> (half_px_width (19 + 1) > real_of_int 10)"
  using half_px_width_mono maxFontSize_half_10 by (simp add: half_px_width_def)

text \<open>
  Claim C1, amended: for a positive budget and a monotone width function, a returned
  size fits the budget, and either its rounded-up width equals the budget or the next
  size exceeds the budget.
\<close>

theorem C1_maxFontSize_fits_budget:
  assumes mx: "0 < mx" and mono_w: "mono w"
    and ret: "maxFontSize w mx = Some (Inr (Some sz))"
  shows "w sz \<le> real_of_int mx \<and> (\<lceil>w sz\<rceil> = mx \<or> w (sz + 1) > real_of_int mx)"
proof -
  from mono_w have mono: "\<forall>a b. a \<le> b \<longrightarrow> w a \<le> w b"
    by (simp add: mono_def)
  let ?seed = "mx div 2" and ?curz = "compute w (mx div 2)"
  let ?rs = "refine ?seed ?curz mx"
  let ?rc = "compute w ?rs"
  have c0: "?curz \<noteq> 0" using ret by (auto simp add: maxFontSize_def Let_def)
  have goal: "compute w sz \<le> mx \<and> (compute w sz = mx \<or> compute w (sz + 1) > mx)"
  proof (cases "?rc = mx")
    case True
    with ret c0 have "sz = ?rs"
      by (simp add: maxFontSize_def Let_def px_or_undefined_def split: if_splits)
    with True show ?thesis by simp
  next
    case False
    with ret c0 have w: "walk w mx ?rs ?rc = Some (Some sz)"
      by (auto simp add: maxFontSize_def Let_def)
    show ?thesis
    proof (cases "?rc > mx")
      case over: True
      then have nn: "0 \<le> ?rs" using refine_nonneg[OF mx mono] by simp
      obtain s' c' where d: "dec_loop w mx ?rs ?rc = (s', c')" by (cases "dec_loop w mx ?rs ?rc")
      note inv = dec_loop_inv[OF d refl nn]
      show ?thesis
      proof (cases "?rs > 0")
        case True
        with over w d have "px_or_undefined s' = Some sz"
          by (simp add: walk_def)
        then have "s' = sz" "sz \<noteq> 0" by (auto simp add: px_or_undefined_def split: if_splits)
        moreover have "s' < ?rs"
        proof -
          have "dec_loop w mx ?rs ?rc = dec_loop w mx (?rs - 1) (compute w (?rs - 1))"
            using over True by (rule dec_loop_step)
          with d have "dec_loop w mx (?rs - 1) (compute w (?rs - 1)) = (s', c')" by simp
          from dec_loop_inv[OF this refl] True show ?thesis by auto
        qed
        ultimately show ?thesis using inv by auto
      next
        case False
        with nn have z: "?rs = 0" by simp
        have "dec_loop w mx ?rs ?rc = (?rs, ?rc)" using False by (simp add: dec_loop_noop)
        with w False over have "px_or_undefined ?rs = Some sz"
          by (simp add: walk_def inc_loop_exit)
        with z show ?thesis by (simp add: px_or_undefined_def)
      qed
    next
      case under: False
      then have "dec_loop w mx ?rs ?rc = (?rs, ?rc)" by (simp add: dec_loop_noop)
      with w under have "inc_loop w mx ?rs ?rc = Some (Some sz)"
        by (simp add: walk_def)
      from inc_loop_inv[OF this refl] under show ?thesis by simp
    qed
  qed
  then show ?thesis
    by (simp add: compute_le_iff compute_gt_iff) (simp add: compute_def)
qed


theorem C1_witness:
  "0 < (10::int) \<and> mono half_px_width \<and> maxFontSize half_px_width 10 = Some (Inr (Some 19))
   \<and> half_px_width 19 \<le> real_of_int 10
   \<and> (\<lceil>half_px_width 19\<rceil> = 10 \<or> half_px_width (19 + 1) > real_of_int 10)"
  using C1_maxFontSize_fits_budget[of 10 half_px_width 19] half_px_width_mono maxFontSize_half_10
  by simp

text \<open>
  Claim C8: the decrement loop does nothing when its condition is false at entry, and
  \<open>maxFontSize\<close> returns what the variant with an if/else on the search direction
  returns (also when neither returns).
\<close>

theorem C8_decrement_loop_redundant:
  "(\<forall>sz cur. \<not> (cur > mx \<and> sz > 0) \<longrightarrow> dec_loop w mx sz cur = (sz, cur))
   \<and> maxFontSize w mx = maxFontSize_ifelse w mx"
proof
  show "\<forall>sz cur. \<not> (cur > mx \<and> sz > 0) \<longrightarrow> dec_loop w mx sz cur = (sz, cur)"
    using dec_loop_noop by blast
  show "maxFontSize w mx = maxFontSize_ifelse w mx"
    unfolding maxFontSize_def maxFontSize_ifelse_def walk_eq ..
qed

theorem C8_witness:
  "\<not> ((8::int) > 10 \<and> (16::int) > 0) \<and> dec_loop half_px_width 10 16 8 = (16, 8)
   \<and> maxFontSize half_px_width 10 = maxFontSize_ifelse half_px_width 10
   \<and> maxFontSize_ifelse half_px_width 10 = Some (Inr (Some 19))"
  using C8_decrement_loop_redundant[of 10 half_px_width] maxFontSize_half_10 by simp

section \<open>Properties of whitespace normalisation and text preparation\<close>

lemma isSpace_space [simp]: "isSpace 0x20"
  by (simp add: isSpace_def)

lemma isSpace_newlines_to_spaces:
  "isSpace (if c = 0x0D \<or> c = 0x0A then 0x20 else c) = isSpace c"
  by (auto simp add: isSpace_def)

lemma dropWhile_newlines_to_spaces:
  "dropWhile isSpace (newlines_to_spaces s) = newlines_to_spaces (dropWhile isSpace s)"
  by (induction s) (auto simp add: newlines_to_spaces_def isSpace_def)

lemma collapse_newlines_to_spaces: "collapse (newlines_to_spaces s) = collapse s"
proof (induction s rule: collapse.induct)
  case 1
  show ?case by (simp add: newlines_to_spaces_def)
next
  case (2 c cs)
  show ?case
  proof (cases "isSpace c")
    case True
    have "collapse (newlines_to_spaces (c # cs))
        = 0x20 # collapse (dropWhile isSpace (newlines_to_spaces cs))"
      using True by (auto simp add: newlines_to_spaces_def isSpace_def)
    also have "\<dots> = 0x20 # collapse (dropWhile isSpace cs)"
      using "2.IH"(1)[OF True] by (simp add: dropWhile_newlines_to_spaces)
    finally show ?thesis using True by simp
  next
    case False
    then have "c \<noteq> 0x0D" "c \<noteq> 0x0A" by (auto simp add: isSpace_def)
    with False "2.IH"(2) show ?thesis by (simp add: newlines_to_spaces_def)
  qed
qed

lemma single_spaced_Cons:
  "single_spaced (c # cs) \<longleftrightarrow>
     (isSpace c \<longrightarrow> c = 0x20 \<and> (cs = [] \<or> \<not> isSpace (hd cs))) \<and> single_spaced cs"
  by (cases cs) auto

lemma hd_collapse_nonspace:
  "cs = [] \<or> \<not> isSpace (hd cs) \<Longrightarrow> collapse cs = [] \<or> \<not> isSpace (hd (collapse cs))"
  by (cases cs) auto

lemma single_spaced_collapse: "single_spaced (collapse s)"
proof (induction s rule: collapse.induct)
  case 1
  show ?case by simp
next
  case (2 c cs)
  show ?case
  proof (cases "isSpace c")
    case True
    have "dropWhile isSpace cs = [] \<or> \<not> isSpace (hd (dropWhile isSpace cs))"
      using hd_dropWhile[of isSpace cs] by blast
    from hd_collapse_nonspace[OF this] "2.IH"(1)[OF True] True show ?thesis
      by (simp add: single_spaced_Cons)
  next
    case False
    with "2.IH"(2) show ?thesis by (simp add: single_spaced_Cons)
  qed
qed

lemma collapse_single_spaced: "single_spaced s \<Longrightarrow> collapse s = s"
proof (induction s rule: collapse.induct)
  case 1
  show ?case by simp
next
  case (2 c cs)
  from "2.prems" have ss: "single_spaced cs" by (simp add: single_spaced_Cons)
  show ?case
  proof (cases "isSpace c")
    case True
    with "2.prems" have c: "c = 0x20" and nx: "cs = [] \<or> \<not> isSpace (hd cs)"
      by (simp_all add: single_spaced_Cons)
    from nx have d: "dropWhile isSpace cs = cs" by (cases cs) auto
    with "2.IH"(1)[OF True] ss True c show ?thesis by simp
  next
    case False
    with "2.IH"(2) ss show ?thesis by simp
  qed
qed

lemma single_spaced_append_left: "single_spaced (xs @ ys) \<Longrightarrow> single_spaced xs"
  by (induction xs rule: single_spaced.induct) (auto simp add: single_spaced_Cons)

lemma single_spaced_dropWhile: "single_spaced s \<Longrightarrow> single_spaced (dropWhile P s)"
  by (induction s) (auto simp add: single_spaced_Cons)

lemma trimEnd_prefix: "s = trimEnd s @ rev (takeWhile isSpace (rev s))"
proof -
  have "rev (takeWhile isSpace (rev s) @ dropWhile isSpace (rev s)) = rev (rev s)"
    by (simp only: takeWhile_dropWhile_id)
  then show ?thesis by (simp only: rev_append rev_rev_ident trimEnd_def)
qed

lemma single_spaced_trim: "single_spaced s \<Longrightarrow> single_spaced (trim s)"
proof -
  assume "single_spaced s"
  then have "single_spaced (trimEnd s @ rev (takeWhile isSpace (rev s)))"
    using trimEnd_prefix[of s] by simp
  then have "single_spaced (trimEnd s)" by (rule single_spaced_append_left)
  then show ?thesis by (simp add: trim_def trimStart_def single_spaced_dropWhile)
qed

lemma trimStart_id: "s = [] \<or> \<not> isSpace (hd s) \<Longrightarrow> trimStart s = s"
  by (cases s) (auto simp add: trimStart_def)

lemma trimEnd_id: "s = [] \<or> \<not> isSpace (last s) \<Longrightarrow> trimEnd s = s"
  by (cases s rule: rev_cases) (auto simp add: trimEnd_def)

lemma trimEnd_last: "trimEnd s = [] \<or> \<not> isSpace (last (trimEnd s))"
proof (cases "dropWhile isSpace (rev s)")
  case Nil
  then show ?thesis by (simp add: trimEnd_def)
next
  case (Cons a as)
  then have "\<not> isSpace a" using hd_dropWhile[of isSpace "rev s"] by auto
  with Cons show ?thesis by (simp add: trimEnd_def)
qed

lemma last_dropWhile_nonempty: "dropWhile P s \<noteq> [] \<Longrightarrow> last (dropWhile P s) = last s"
  by (induction s) (auto split: if_splits)

lemma trim_last: "trim s = [] \<or> \<not> isSpace (last (trim s))"
proof (cases "trim s = []")
  case True
  then show ?thesis by simp
next
  case False
  then have "last (trim s) = last (trimEnd s)" "trimEnd s \<noteq> []"
    by (auto simp add: trim_def trimStart_def last_dropWhile_nonempty)
  with trimEnd_last[of s] show ?thesis by auto
qed

lemma trim_hd: "trim s = [] \<or> \<not> isSpace (hd (trim s))"
  using hd_dropWhile[of isSpace "trimEnd s"] by (auto simp add: trim_def trimStart_def)

lemma trim_trim: "trim (trim s) = trim s"
proof -
  have "trimEnd (trim s) = trim s" using trim_last by (rule trimEnd_id)
  moreover have "trimStart (trim s) = trim s" using trim_hd by (rule trimStart_id)
  ultimately show ?thesis by (simp add: trim_def[of "trim s"])
qed

lemma trim_collapse_idem: "trim (collapse (trim (collapse s))) = trim (collapse s)"
proof -
  have "single_spaced (trim (collapse s))"
    by (rule single_spaced_trim) (rule single_spaced_collapse)
  then have "collapse (trim (collapse s)) = trim (collapse s)"
    by (rule collapse_single_spaced)
  then show ?thesis by (simp add: trim_trim)
qed

lemma js_distinct:
  "js ''pre'' \<noteq> js ''pre-wrap''" "js ''pre'' \<noteq> js ''pre-line''" "js ''pre-wrap'' \<noteq> js ''pre-line''"
  by (simp_all add: js_def)

lemma normalizeWhitespace_idem:
  "normalizeWhitespace (normalizeWhitespace t ws) ws = normalizeWhitespace t ws"
  by (simp add: normalizeWhitespace_def or_empty_def trim_collapse_idem
      collapse_newlines_to_spaces)

lemma normalizeWhitespace_pre_line_is_default:
  "normalizeWhitespace t (Some (js ''pre-line'')) = normalizeWhitespace t None"
  by (simp add: normalizeWhitespace_def js_def collapse_newlines_to_spaces)

subsection \<open>Text preparation\<close>

lemma strip_ci_suffix: "strip_ci pat s = Some rest \<Longrightarrow> suffix rest s"
proof (induction pat s rule: strip_ci.induct)
  case (3 p ps c cs)
  then have "suffix rest cs" by (auto split: if_splits)
  then show ?case by (rule suffix_ConsI)
qed simp_all

lemma strip_ci_length: "strip_ci pat s = Some rest \<Longrightarrow> length rest + length pat = length s"
  by (induction pat s rule: strip_ci.induct) (auto split: if_splits)

lemma match_br_suffix: "match_br s = Some rest \<Longrightarrow> suffix rest s"
proof -
  assume m: "match_br s = Some rest"
  then obtain r where r: "strip_ci (js ''<br'') s = Some r"
    by (auto simp add: match_br_def split: option.splits)
  define r1 where "r1 = dropWhile isSpace r"
  define r2 where "r2 = (case r1 of [] \<Rightarrow> r1 | c # t \<Rightarrow> if c = 0x2F then t else r1)"
  have s1: "suffix r1 r" unfolding r1_def by (rule suffix_dropWhile)
  have s2: "suffix r2 r1" unfolding r2_def by (auto split: list.splits intro: suffix_ConsI)
  have "match_br s = (case r2 of [] \<Rightarrow> None | c # t \<Rightarrow> if c = 0x3E then Some t else None)"
    by (simp only: match_br_def r r2_def r1_def Let_def option.case)
  with m have "r2 = 0x3E # rest"
    by (cases r2) (auto split: if_splits)
  then have s3: "suffix rest r2" by (simp add: suffix_ConsI)
  from s3 s2 s1 strip_ci_suffix[OF r] show ?thesis
    by (meson suffix_order.trans)
qed

lemma occurs_suffix: "suffix a b \<Longrightarrow> occurs m a \<Longrightarrow> occurs m b"
proof (induction b)
  case Nil
  then show ?case by simp
next
  case (Cons c cs)
  show ?case
  proof (cases "a = c # cs")
    case True
    with Cons.prems show ?thesis by simp
  next
    case False
    with Cons.prems have "suffix a cs" by (simp add: suffix_Cons)
    with Cons show ?thesis by simp
  qed
qed

lemma replace_all_no_match: "\<not> occurs m s \<Longrightarrow> replace_all m r s = s"
  by (induction m r s rule: replace_all.induct) auto

text \<open>A literal match at the head of the output is a literal match at the head of the input.\<close>

lemma strip_ci_replace_all_head:
  assumes "r = [rc]" and "\<forall>p \<in> set pat. \<not> ci_eq p rc"
    and "strip_ci pat (replace_all m r s) \<noteq> None"
  shows "strip_ci pat s \<noteq> None"
  using assms
proof (induction m r s arbitrary: pat rule: replace_all.induct)
  case (1 m r)
  then show ?case by simp
next
  case (2 m r c cs)
  note r = "2.prems"(1)
  show ?case
  proof (cases pat)
    case Nil
    then show ?thesis by simp
  next
    case (Cons p ps)
    from "2.prems"(2) Cons have ps: "\<forall>p \<in> set ps. \<not> ci_eq p rc" and p: "\<not> ci_eq p rc"
      by simp_all
    show ?thesis
    proof (cases "m (c # cs)")
      case None
      with "2.prems"(3) Cons have pc: "ci_eq p c" and t: "strip_ci ps (replace_all m r cs) \<noteq> None"
        by (auto split: if_splits)
      from "2.IH"(1)[OF None r ps t] pc Cons show ?thesis by simp
    next
      case (Some rest)
      show ?thesis
      proof (cases "length rest \<le> length cs")
        case True
        with Some "2.prems"(3) Cons r p show ?thesis by (auto split: if_splits)
      next
        case False
        with Some "2.prems"(3) Cons have pc: "ci_eq p c"
          and t: "strip_ci ps (replace_all m r cs) \<noteq> None"
          by (auto split: if_splits)
        from "2.IH"(3)[OF Some False r ps t] pc Cons show ?thesis by simp
      qed
    qed
  qed
qed

text \<open>Replacing by a character foreign to a literal pattern creates no match of it.\<close>

lemma occurs_replace_all_other:
  assumes "r = [rc]" and "\<forall>p \<in> set pat. \<not> ci_eq p rc" and "pat \<noteq> []"
    and "\<And>s rest. m s = Some rest \<Longrightarrow> suffix rest s"
    and "occurs (strip_ci pat) (replace_all m r s)"
  shows "occurs (strip_ci pat) s"
  using assms
proof (induction m r s rule: replace_all.induct)
  case (1 m r)
  then show ?case by simp
next
  case (2 m r c cs)
  note r = "2.prems"(1) and rc = "2.prems"(2) and ne = "2.prems"(3) and suf = "2.prems"(4)
  from ne obtain p ps where pat: "pat = p # ps" by (cases pat) auto
  with rc have p: "\<not> ci_eq p rc" by simp
  show ?case
  proof (cases "m (c # cs)")
    case None
    with "2.prems"(5) have "strip_ci pat (c # replace_all m r cs) \<noteq> None
        \<or> occurs (strip_ci pat) (replace_all m r cs)" by simp
    then show ?thesis
    proof
      assume "strip_ci pat (c # replace_all m r cs) \<noteq> None"
      then have "strip_ci pat (replace_all m r (c # cs)) \<noteq> None" using None by simp
      from strip_ci_replace_all_head[OF r rc this] show ?thesis by simp
    next
      assume "occurs (strip_ci pat) (replace_all m r cs)"
      from "2.IH"(1)[OF None r rc ne suf this] show ?thesis by simp
    qed
  next
    case (Some rest)
    show ?thesis
    proof (cases "length rest \<le> length cs")
      case True
      with Some "2.prems"(5) r pat p have "occurs (strip_ci pat) (replace_all m r rest)"
        by simp
      from "2.IH"(2)[OF Some True r rc ne suf this] have "occurs (strip_ci pat) rest" .
      with suf[OF Some] show ?thesis by (rule occurs_suffix)
    next
      case False
      with Some "2.prems"(5) have "strip_ci pat (c # replace_all m r cs) \<noteq> None
          \<or> occurs (strip_ci pat) (replace_all m r cs)" by simp
      then show ?thesis
      proof
        assume "strip_ci pat (c # replace_all m r cs) \<noteq> None"
        then have "strip_ci pat (replace_all m r (c # cs)) \<noteq> None" using Some False by simp
        from strip_ci_replace_all_head[OF r rc this] show ?thesis by simp
      next
        assume "occurs (strip_ci pat) (replace_all m r cs)"
        from "2.IH"(3)[OF Some False r rc ne suf this] show ?thesis by simp
      qed
    qed
  qed
qed

text \<open>After replacing a literal pattern by a character foreign to it, no match is left.\<close>

lemma occurs_replace_all_self:
  assumes "r = [rc]" and "\<forall>p \<in> set pat. \<not> ci_eq p rc" and "pat \<noteq> []"
  shows "\<not> occurs (strip_ci pat) (replace_all (strip_ci pat) r s)"
proof (induction s rule: length_induct)
  case (1 s)
  from assms(3) obtain p ps where pat: "pat = p # ps" by (cases pat) auto
  with assms(2) have p: "\<not> ci_eq p rc" by simp
  show ?case
  proof (cases s)
    case Nil
    with pat show ?thesis by simp
  next
    case (Cons c cs)
    show ?thesis
    proof (cases "strip_ci pat (c # cs)")
      case None
      have hd: "strip_ci pat (c # replace_all (strip_ci pat) r cs) = None"
      proof (rule ccontr)
        assume "strip_ci pat (c # replace_all (strip_ci pat) r cs) \<noteq> None"
        then have "strip_ci pat (replace_all (strip_ci pat) r (c # cs)) \<noteq> None"
          using None by simp
        from strip_ci_replace_all_head[OF assms(1,2) this] None show False by simp
      qed
      from 1 Cons have "\<not> occurs (strip_ci pat) (replace_all (strip_ci pat) r cs)" by simp
      with hd None Cons show ?thesis by simp
    next
      case (Some rest)
      from strip_ci_length[OF Some] pat have len: "length rest \<le> length cs" by simp
      with 1 Cons have "\<not> occurs (strip_ci pat) (replace_all (strip_ci pat) r rest)" by simp
      with Some len Cons assms(1) pat p show ?thesis by simp
    qed
  qed
qed


lemma prepareText_idem_no_br:
  assumes "\<not> occurs match_br (prepareText t)"
  shows "prepareText (Some (prepareText t)) = prepareText t"
proof -
  define s1 where "s1 = replace_all (strip_ci (js ''<wbr>'')) [0x200B] (or_empty t)"
  define s2 where "s2 = replace_all match_br [0x0A] s1"
  define s3 where "s3 = replace_all (strip_ci (js ''&shy;'')) [0xAD] s2"
  define s4 where "s4 = replace_all (strip_ci (js ''&mdash;'')) [0x2014] s3"
  have p: "prepareText t = s4" by (simp add: prepareText_def s1_def s2_def s3_def s4_def)
  have suf: "\<And>pat s rest. strip_ci pat s = Some rest \<Longrightarrow> suffix rest s"
    by (rule strip_ci_suffix)
  have w1: "\<not> occurs (strip_ci (js ''<wbr>'')) s1"
    unfolding s1_def by (rule occurs_replace_all_self[OF refl]) (simp_all add: js_def ci_eq_def)
  have w2: "\<not> occurs (strip_ci (js ''<wbr>'')) s2"
    using w1 occurs_replace_all_other[where m = match_br and pat = "js ''<wbr>''" and rc = "0x0A" and s = s1, OF refl _ _ match_br_suffix]
    unfolding s2_def by (auto simp add: js_def ci_eq_def)
  have w3: "\<not> occurs (strip_ci (js ''<wbr>'')) s3"
    using w2 occurs_replace_all_other[where pat = "js ''<wbr>''" and rc = "0xAD" and s = s2, OF refl _ _ strip_ci_suffix]
    unfolding s3_def by (auto simp add: js_def ci_eq_def)
  have w4: "\<not> occurs (strip_ci (js ''<wbr>'')) s4"
    using w3 occurs_replace_all_other[where pat = "js ''<wbr>''" and rc = "0x2014" and s = s3, OF refl _ _ strip_ci_suffix]
    unfolding s4_def by (auto simp add: js_def ci_eq_def)
  have h3: "\<not> occurs (strip_ci (js ''&shy;'')) s3"
    unfolding s3_def by (rule occurs_replace_all_self[OF refl]) (simp_all add: js_def ci_eq_def)
  have h4: "\<not> occurs (strip_ci (js ''&shy;'')) s4"
    using h3 occurs_replace_all_other[where pat = "js ''&shy;''" and rc = "0x2014" and s = s3, OF refl _ _ strip_ci_suffix]
    unfolding s4_def by (auto simp add: js_def ci_eq_def)
  have m4: "\<not> occurs (strip_ci (js ''&mdash;'')) s4"
    unfolding s4_def by (rule occurs_replace_all_self[OF refl]) (simp_all add: js_def ci_eq_def)
  from assms p have b4: "\<not> occurs match_br s4" by simp
  have "prepareText (Some s4) = s4"
    by (simp add: prepareText_def or_empty_def replace_all_no_match w4 b4 h4 m4)
  with p show ?thesis by simp
qed

lemma prepareText_nested_br:
  "prepareText (Some (js ''<br<br>>'')) = [0x3C, 0x62, 0x72, 0x0A, 0x3E]"
  by (simp add: prepareText_def js_def or_empty_def match_br_def ci_eq_def isSpace_def)

lemma prepareText_br_newline:
  "prepareText (Some [0x3C, 0x62, 0x72, 0x0A, 0x3E]) = [0x0A]"
  by (simp add: prepareText_def js_def or_empty_def match_br_def ci_eq_def isSpace_def)

text \<open>
  Claim C6: the policies of \<open>normalizeWhitespace\<close>. Under \<open>pre-line\<close> the claim keeps
  the newlines; the code replaces every run of \<open>\s\<close>, and a line feed is in \<open>\s\<close>:
  \<open>a\nb\<close> becomes \<open>a b\<close>, as under the default policy.
\<close>

theorem C6_pre_line_collapses_newline:
  "normalizeWhitespace (Some [0x61, 0x0A, 0x62]) (Some (js ''pre-line'')) = Some [0x61, 0x20, 0x62]"
  by (simp add: normalizeWhitespace_def js_def or_empty_def trim_def trimStart_def trimEnd_def
      isSpace_def)

text \<open>
  Claim C7, as stated, fails for \<open>prepareText\<close>: the newline that replaces an inner
  \<open><br>\<close> can complete an outer tag, \<open><br<br>>\<close> becomes \<open><br\n>\<close> and then \<open>\n\<close>.
\<close>

theorem C7_counterexample:
  "prepareText (Some (prepareText (Some (js ''<br<br>>'')))) \<noteq> prepareText (Some (js ''<br<br>>''))"
  by (simp only: prepareText_nested_br prepareText_br_newline) simp

text \<open>
  Claim C7, amended: \<open>normalizeWhitespace\<close> is idempotent under every policy, and
  \<open>prepareText\<close> applied twice gives what it gives once whenever the once-prepared
  text holds no match of the \<open>br\<close> pattern.
\<close>

theorem C7_idempotence:
  "normalizeWhitespace (normalizeWhitespace t ws) ws = normalizeWhitespace t ws
   \<and> (\<not> occurs match_br (prepareText u) \<longrightarrow>
        prepareText (Some (prepareText u)) = prepareText u)"
  using normalizeWhitespace_idem prepareText_idem_no_br by blast

theorem C7_witness:
  "normalizeWhitespace (normalizeWhitespace (Some (js '' a  b '')) None) None
     = normalizeWhitespace (Some (js '' a  b '')) None
   \<and> \<not> occurs match_br (prepareText (Some (js ''a<BR />b'')))
   \<and> prepareText (Some (prepareText (Some (js ''a<BR />b'')))) = prepareText (Some (js ''a<BR />b''))
   \<and> prepareText (Some (js ''a<BR />b'')) = [0x61, 0x0A, 0x62]"
proof -
  have p: "prepareText (Some (js ''a<BR />b'')) = [0x61, 0x0A, 0x62]"
    by (simp add: prepareText_def js_def or_empty_def match_br_def ci_eq_def isSpace_def)
  have n: "\<not> occurs match_br [0x61, 0x0A, 0x62]"
    by (simp add: match_br_def js_def ci_eq_def)
  from C7_idempotence[of "Some (js '' a  b '')" None "Some (js ''a<BR />b'')"] p n
  show ?thesis by simp
qed

section \<open>Properties of the unit conversion\<close>






lemmas px_eval_defs =
  pxValue_def unit_of_def parseFloat_def toString_def toString_dec_def js_def
  trimStart_def isSpace_def take_sign_def isDigit_def digits_value_def parse_exponent_def
  strip_zeros.simps decimal.simps number_of_def baseFontSize_def Let_def


lemma pxValue_2xyz: "pxValue (js ''2xyz'') b = Inl (Error (js ''The unit xyz is not supported''))"
  by (simp add: px_eval_defs)




lemma addon_error:
  "pxValue s None = Inl e \<Longrightarrow> s \<noteq> [] \<Longrightarrow> \<not> has blacklist s \<Longrightarrow> addon (Some s) = Inl e"
  by (simp add: addon_def)

lemma pxValue_error_propagates:
  assumes "pxValue s None = Inl e" and "s \<noteq> []" and "\<not> has blacklist s"
  shows "computeLinesDefault (p\<lparr>wordSpacing := Some s\<rparr>) = Inl e"
    and "computeLinesBreakAll (p\<lparr>wordSpacing := Some s\<rparr>) = Inl e"
    and "lines (r\<lparr>fontSize := s\<rparr>) t = Inl e"
  using addon_error[OF assms] assms(1)
  by (simp_all add: computeLinesDefault_def computeLinesBreakAll_def addWordAndLetterSpacing_def
      lines_def getFont_def)



subsection \<open>Numbers written canonically\<close>















subsection \<open>Conversion of canonically written lengths\<close>











section \<open>Properties of the line breakers\<close>

lemma wf_scan_parts:
  "scan_parts cs part parts bps = (part', parts', bps') \<Longrightarrow> wf_breakpoints bps
   \<Longrightarrow> wf_breakpoints bps'"
proof (induction cs arbitrary: part parts bps)
  case Nil
  then show ?case by simp
next
  case (Cons c rest)
  show ?case
  proof (cases "part = [] \<and> checkBreak c = Some TyBAI")
    case True
    with Cons.prems have "scan_parts rest part parts bps = (part', parts', bps')"
      by (simp add: Let_def)
    from Cons.IH[OF this Cons.prems(2)] show ?thesis .
  next
    case False
    show ?thesis
    proof (cases "checkBreak c")
      case None
      with False Cons.prems have "scan_parts rest (part @ c) parts bps = (part', parts', bps')"
        by (simp add: Let_def)
      from Cons.IH[OF this Cons.prems(2)] show ?thesis .
    next
      case (Some t)
      have wf: "wf_breakpoints (bps @ [\<lparr>chr = c, type = t\<rparr>])"
        using Cons.prems(2) Some by (simp add: wf_breakpoints_def)
      from False Some Cons.prems
      have "scan_parts rest [] (parts @ [part]) (bps @ [\<lparr>chr = c, type = t\<rparr>])
          = (part', parts', bps')"
        by (auto simp add: Let_def)
      from Cons.IH[OF this wf] show ?thesis .
    qed
  qed
qed

lemma wf_text_parts: "text_parts t = (parts, bps) \<Longrightarrow> wf_breakpoints bps"
proof -
  assume tp: "text_parts t = (parts, bps)"
  obtain part ps bs where s: "scan_parts (chars_of t) [] [] [] = (part, ps, bs)"
    by (cases "scan_parts (chars_of t) [] [] []") auto
  with tp have "bs = bps" by (simp add: text_parts_def)
  moreover have "wf_breakpoints []" by (simp add: wf_breakpoints_def)
  ultimately show ?thesis using wf_scan_parts[OF s] by simp
qed

lemma body_ok_line_ok: "body_ok m sp mx parts s \<Longrightarrow> line_ok m sp mx parts s"
  unfolding line_ok_def by (rule disjI2) (rule exI[of _ s], rule exI[of _ "[]"], simp)

lemma body_ok_suffix:
  "body_ok m sp mx parts s \<Longrightarrow>
   suf = js ''-'' \<or> checkBreak suf = Some TyBA \<or> checkBreak suf = Some TyB2 \<Longrightarrow>
   line_ok m sp mx parts (s @ suf)"
  unfolding line_ok_def by (rule disjI2) (rule exI[of _ s], rule exI[of _ suf], auto)

lemma part_ok: "part \<in> set parts \<Longrightarrow> body_ok m sp mx parts part"
  unfolding body_ok_def single_part_def by (rule disjI2) (rule exI[of _ "[]"], auto)

lemma part_pre_ok:
  "part \<in> set parts \<Longrightarrow> checkBreak c = Some TyBB \<or> checkBreak c = Some TyB2 \<Longrightarrow>
   body_ok m sp mx parts (c @ part)"
  unfolding body_ok_def single_part_def by (rule disjI2) (rule exI[of _ c], auto)

lemma split_at_ok:
  assumes "split_at m sp mx ty line c part = Inr (pushed, line')"
    and "body_ok m sp mx parts line" and "part \<in> set parts"
    and "ty \<noteq> TySHY \<longrightarrow> checkBreak c = Some ty"
  shows "body_ok m sp mx parts line' \<and> (\<forall>l \<in> set pushed. line_ok m sp mx parts l)"
proof (cases ty)
  case TyB2
  with assms(4) have c: "checkBreak c = Some TyB2" by simp
  from assms(1) TyB2 consider
      "pushed = [line @ c]" "line' = part"
    | "pushed = [line]" "line' = c @ part"
    | "pushed = [line, c]" "line' = part"
    by (auto simp add: split_at_def split: if_splits)
  then show ?thesis
  proof cases
    case 1
    with assms(2,3) c show ?thesis by (simp add: body_ok_suffix part_ok)
  next
    case 2
    with assms(2,3) c show ?thesis by (simp add: body_ok_line_ok part_pre_ok)
  next
    case 3
    have "line_ok m sp mx parts line" using assms(2) by (rule body_ok_line_ok)
    moreover have "line_ok m sp mx parts c" using c by (simp add: line_ok_def)
    ultimately show ?thesis using 3 assms(3) by (simp add: part_ok)
  qed
next
  case TyBAI
  with assms show ?thesis by (auto simp add: split_at_def body_ok_line_ok part_ok)
next
  case TySHY
  with assms show ?thesis by (auto simp add: split_at_def body_ok_suffix part_ok)
next
  case TyBA
  with assms show ?thesis by (auto simp add: split_at_def body_ok_suffix part_ok)
next
  case TyBB
  with assms show ?thesis by (auto simp add: split_at_def body_ok_line_ok part_pre_ok)
next
  case TyBK
  with assms show ?thesis by (simp add: split_at_def)
qed


lemma pack_at_cases:
  assumes "pack_at m sp mx bp part line acc = Inr (line', acc')"
  obtains
    (mandatory) "type bp = TyBK" "line' = part" "acc' = acc @ [line]"
  | (extend) c where "c = (if type bp = TySHY then [] else chr bp)"
      "js_le (js_round (rawWidth m sp (line @ c @ part))) mx"
      "line' = line @ c @ part" "acc' = acc"
  | (split) c pushed where "c = (if type bp = TySHY then [] else chr bp)"
      "split_at m sp mx (type bp) line c part = Inr (pushed, line')"
      "acc' = acc @ pushed"
proof (cases "type bp = TyBK")
  case True
  with assms have "line' = part" "acc' = acc @ [line]" by (simp_all add: pack_at_def)
  with True show ?thesis by (rule mandatory)
next
  case nbk: False
  define c where "c = (if type bp = TySHY then [] else chr bp)"
  show ?thesis
  proof (cases "js_le (js_round (rawWidth m sp (line @ c @ part))) mx")
    case True
    with nbk assms have "line' = line @ c @ part" "acc' = acc"
      by (simp_all add: pack_at_def c_def)
    with c_def True show ?thesis by (rule extend)
  next
    case False
    with nbk assms
    have "(case split_at m sp mx (type bp) line c part of
             Inl e \<Rightarrow> Inl e
           | Inr (pushed, l) \<Rightarrow> Inr (l, acc @ pushed)) = Inr (line', acc')"
      by (simp add: pack_at_def c_def)
    then obtain pushed where "split_at m sp mx (type bp) line c part = Inr (pushed, line')"
      "acc' = acc @ pushed"
      by (cases "split_at m sp mx (type bp) line c part") auto
    with c_def show ?thesis by (rule split)
  qed
qed

lemma pack_step_first: "pack_step m sp mx parts bps 0 line acc = Inr (parts ! 0, acc)"
  by (simp add: pack_step_def)

lemma pack_step_skip:
  "0 < i \<Longrightarrow> has BAI (parts ! (i - 1)) \<and> has BAI (parts ! i) \<Longrightarrow>
   pack_step m sp mx parts bps i line acc = Inr (line, acc)"
  by (auto simp add: pack_step_def)

lemma pack_step_undefined:
  "0 < i \<Longrightarrow> \<not> (has BAI (parts ! (i - 1)) \<and> has BAI (parts ! i)) \<Longrightarrow>
   \<not> i - 1 < length bps \<Longrightarrow> pack_step m sp mx parts bps i line acc = Inl TypeError"
  by (auto simp add: pack_step_def)

lemma pack_step_at:
  "0 < i \<Longrightarrow> \<not> (has BAI (parts ! (i - 1)) \<and> has BAI (parts ! i)) \<Longrightarrow>
   i - 1 < length bps \<Longrightarrow>
   pack_step m sp mx parts bps i line acc = pack_at m sp mx (bps ! (i - 1)) (parts ! i) line acc"
  by (auto simp add: pack_step_def)

lemma pack_step_ok:
  assumes step: "pack_step m sp mx parts bps i line acc = Inr (line', acc')"
    and i: "i < length parts"
    and line: "0 < i \<longrightarrow> body_ok m sp mx parts line"
    and lines: "\<forall>l \<in> set acc. line_ok m sp mx parts l"
    and wf: "wf_breakpoints bps"
  shows "body_ok m sp mx parts line' \<and> (\<forall>l \<in> set acc'. line_ok m sp mx parts l)"
proof (cases "i = 0")
  case True
  with step have "line' = parts ! 0" "acc' = acc" by (simp_all add: pack_step_first)
  with i True lines show ?thesis by (simp add: part_ok)
next
  case False
  then have pos: "0 < i" by simp
  then have ok: "body_ok m sp mx parts line" using line by simp
  have part: "parts ! i \<in> set parts" using i by simp
  show ?thesis
  proof (cases "has BAI (parts ! (i - 1)) \<and> has BAI (parts ! i)")
    case True
    from step have "line' = line" "acc' = acc"
      unfolding pack_step_skip[OF pos True] by simp_all
    with ok lines show ?thesis by simp
  next
    case nb: False
    show ?thesis
    proof (cases "i - 1 < length bps")
      case nin: False
      from step show ?thesis unfolding pack_step_undefined[OF pos nb nin] by simp
    next
      case True
      from step
      have at: "pack_at m sp mx (bps ! (i - 1)) (parts ! i) line acc = Inr (line', acc')"
        unfolding pack_step_at[OF pos nb True] .
      from True wf have cb: "checkBreak (chr (bps ! (i - 1))) = Some (type (bps ! (i - 1)))"
        by (simp add: wf_breakpoints_def)
      from at show ?thesis
      proof (cases rule: pack_at_cases)
        case mandatory
        with ok lines part show ?thesis by (simp add: part_ok body_ok_line_ok)
      next
        case (extend c)
        with lines show ?thesis by (simp add: body_ok_def fits_def)
      next
        case (split c pushed)
        with cb have "type (bps ! (i - 1)) \<noteq> TySHY \<longrightarrow> checkBreak c = Some (type (bps ! (i - 1)))"
          by simp
        from split_at_ok[OF split(2) ok part this] split(3) lines show ?thesis by auto
      qed
    qed
  qed
qed

lemma pack_parts_done:
  "\<not> i < length parts \<Longrightarrow> pack_parts m sp mx parts bps i line acc = Inr (line, acc)"
  by (subst pack_parts.simps) simp

lemma pack_parts_step:
  "i < length parts \<Longrightarrow>
   pack_parts m sp mx parts bps i line acc =
     (case pack_step m sp mx parts bps i line acc of
        Inl e \<Rightarrow> Inl e
      | Inr (line', acc') \<Rightarrow> pack_parts m sp mx parts bps (i + 1) line' acc')"
  by (subst pack_parts.simps) simp

lemma pack_parts_ok:
  "pack_parts m sp mx parts bps i line acc = Inr (line', acc') \<Longrightarrow>
   (0 < i \<longrightarrow> body_ok m sp mx parts line) \<Longrightarrow> (i = 0 \<longrightarrow> line = []) \<Longrightarrow>
   (\<forall>l \<in> set acc. line_ok m sp mx parts l) \<Longrightarrow> wf_breakpoints bps \<Longrightarrow>
   (line' = [] \<or> body_ok m sp mx parts line') \<and> (\<forall>l \<in> set acc'. line_ok m sp mx parts l)"
proof (induction m sp mx parts bps i line acc rule: pack_parts.induct)
  case (1 m sp mx parts bps i line acc)
  show ?case
  proof (cases "i < length parts")
    case True
    from "1.prems"(1) True obtain l1 ls1
      where st: "pack_step m sp mx parts bps i line acc = Inr (l1, ls1)"
        and rest: "pack_parts m sp mx parts bps (i + 1) l1 ls1 = Inr (line', acc')"
      by (auto simp add: pack_parts_step split: sum.splits)
    from pack_step_ok[OF st True "1.prems"(2) "1.prems"(4) "1.prems"(5)]
    have ok1: "body_ok m sp mx parts l1" "\<forall>l \<in> set ls1. line_ok m sp mx parts l" by simp_all
    from "1.IH"[OF True st refl rest] ok1 "1.prems"(5) show ?thesis by simp
  next
    case False
    with "1.prems"(1) have "line' = line" "acc' = acc"
      by (simp_all add: pack_parts_done)
    with "1.prems" show ?thesis by (cases "i = 0") auto
  qed
qed

lemma computeLinesDefault_lines_ok:
  assumes "computeLinesDefault p = Inr ls"
    and "addWordAndLetterSpacing (wordSpacing p) (letterSpacing p) = Inr sp"
    and "l \<in> set ls"
  shows "line_ok (ctx p) sp (maxW p) (fst (text_parts (or_empty (text p)))) l"
proof (cases "no_text (text p)")
  case True
  with assms show ?thesis by (simp add: computeLinesDefault_def)
next
  case False
  obtain parts bps where tp: "text_parts (or_empty (text p)) = (parts, bps)"
    by (cases "text_parts (or_empty (text p))") auto
  from assms(1,2) False tp obtain line acc
    where pk: "pack_parts (ctx p) sp (maxW p) parts bps 0 [] [] = Inr (line, acc)"
      and ls: "ls = (if line \<noteq> [] then acc @ [line] else acc)"
    by (auto simp add: computeLinesDefault_def split: sum.splits)
  from pack_parts_ok[OF pk _ _ _ wf_text_parts[OF tp]]
  have "line = [] \<or> body_ok (ctx p) sp (maxW p) parts line"
    and "\<forall>l \<in> set acc. line_ok (ctx p) sp (maxW p) parts l" by simp_all
  with ls assms(3) tp show ?thesis by (auto simp add: body_ok_line_ok split: if_splits)
qed

lemmas break_sets = has_def B2_def BAI_def SHY_def BA_def BB_def BK_def

lemmas default_eval_defs =
  computeLinesDefault_def example_params_def addWordAndLetterSpacing_def addon_def
  no_text_def js_def text_parts_def checkBreak_def break_sets or_empty_def
  pack_parts_step pack_parts_done pack_step_def pack_at_def split_at_def
  rawWidth_def addSpacing_def unit_width_def unit_width_wide_def unit_width_plus_def
  trim_def trimStart_def trimEnd_def isSpace_def Let_def

lemmas break_all_eval_defs =
  computeLinesBreakAll_def example_params_def addWordAndLetterSpacing_def addon_def
  no_text_def js_def checkBreak_def break_sets or_empty_def break_all_step_def unit_at_def
  rawWidth_def addSpacing_def unit_width_def unit_width_plus_def
  trim_def trimStart_def trimEnd_def isSpace_def Let_def

lemma no_text_parse: "no_text t \<Longrightarrow> elText r = None \<Longrightarrow> no_text (parseArgs_text r t)"
  by (auto simp add: no_text_def parseArgs_text_def normalizeWhitespace_def or_empty_def
      prepareText_def trim_def trimStart_def trimEnd_def newlines_to_spaces_def)

lemma width_no_text: "no_text (parseArgs_text r t) \<Longrightarrow> width r t = Inr (Fin 0)"
  by (simp add: width_def)

lemma computeLines_no_text:
  assumes "no_text (text p)"
    and "addWordAndLetterSpacing (wordSpacing p) (letterSpacing p) = Inr sp"
  shows "computeLinesDefault p = Inr []" and "computeLinesBreakAll p = Inr []"
  using assms by (simp_all add: computeLinesDefault_def computeLinesBreakAll_def)

lemma addWordAndLetterSpacing_none: "addWordAndLetterSpacing None None = Inr no_spacing"
  by (simp add: addWordAndLetterSpacing_def addon_def no_spacing_def)

lemma default_bar_example:
  "computeLinesDefault (example_params (js ''ab|cd'') 2) = Inr [js ''ab|'', js ''cd'']"
  by (simp add: default_eval_defs)

lemma default_trailing_bar: "computeLinesDefault (example_params (js ''a|'') m) = Inr [js ''a'']"
  by (simp add: default_eval_defs)

lemma break_all_trailing_bar:
  "computeLinesBreakAll (example_params (js ''a|'') 100) = Inr [js ''a|'']"
  by (simp add: break_all_eval_defs)

text \<open>
  Claim C2, as stated, fails at a \<open>BA\<close> boundary: the line is closed with the boundary
  character without being measured again. With one pixel for every code unit and a
  maximum of 2, \<open>ab|cd\<close> gives the lines \<open>ab|\<close> and \<open>cd\<close>; the first is three
  pixels wide, is not a single boundary character and is not a text part.
\<close>

theorem C2_counterexample:
  "computeLinesDefault (example_params (js ''ab|cd'') 2) = Inr [js ''ab|'', js ''cd'']
   \<and> \<not> fits unit_width no_spacing (Fin 2) (js ''ab|'')
   \<and> checkBreak (js ''ab|'') \<noteq> Some TyB2
   \<and> js ''ab|'' \<notin> set (fst (text_parts (js ''ab|cd'')))"
  using default_bar_example
  by (simp add: fits_def no_spacing_def rawWidth_def addSpacing_def unit_width_def
      unit_width_plus_def js_def
      text_parts_def checkBreak_def break_sets trim_def trimStart_def trimEnd_def isSpace_def)

text \<open>
  Claim C2, amended: every line of the default policy is a forced single \<open>B2\<close>
  boundary, or a body followed by at most one character appended when the line was
  closed (the hyphen of a soft-hyphen split, the boundary character of a \<open>BA\<close> or \<open>B2\<close>
  split), where the rounded width of the body is at most the maximum unless the body is
  a single text part, possibly with its \<open>BB\<close> or \<open>B2\<close> boundary character in front.
\<close>

theorem C2_default_lines_within_max:
  assumes "computeLinesDefault p = Inr ls"
    and "addWordAndLetterSpacing (wordSpacing p) (letterSpacing p) = Inr sp"
    and "l \<in> set ls"
  shows "line_ok (ctx p) sp (maxW p) (fst (text_parts (or_empty (text p)))) l"
  using assms by (rule computeLinesDefault_lines_ok)

theorem C2_witness:
  "computeLinesDefault (example_params (js ''ab|cd'') 2) = Inr [js ''ab|'', js ''cd'']
   \<and> addWordAndLetterSpacing (wordSpacing (example_params (js ''ab|cd'') 2))
        (letterSpacing (example_params (js ''ab|cd'') 2)) = Inr no_spacing
   \<and> js ''ab|'' \<in> set [js ''ab|'', js ''cd'']
   \<and> line_ok unit_width no_spacing (Fin 2) (fst (text_parts (js ''ab|cd''))) (js ''ab|'')"
proof -
  have sp: "addWordAndLetterSpacing (wordSpacing (example_params (js ''ab|cd'') 2))
        (letterSpacing (example_params (js ''ab|cd'') 2)) = Inr no_spacing"
    by (simp add: example_params_def addWordAndLetterSpacing_none)
  have "line_ok (ctx (example_params (js ''ab|cd'') 2)) no_spacing
          (maxW (example_params (js ''ab|cd'') 2))
          (fst (text_parts (or_empty (text (example_params (js ''ab|cd'') 2))))) (js ''ab|'')"
    by (rule C2_default_lines_within_max[OF default_bar_example sp]) simp
  then show ?thesis
    using default_bar_example sp by (simp add: example_params_def or_empty_def)
qed

subsection \<open>What the line breakers read of the measurements\<close>

lemma checkBreak_B2: "checkBreak c = Some TyB2 \<Longrightarrow> has B2 c"
  by (auto simp add: checkBreak_def split: if_splits)

lemma split_at_cong:
  assumes "same_tie_breaks m1 m2 sp mx" and "ty = TyB2 \<longrightarrow> has B2 c"
  shows "split_at m1 sp mx ty line c part = split_at m2 sp mx ty line c part"
proof (cases "ty = TyB2")
  case True
  with assms(2) have c: "has B2 c" by simp
  then have "tie_break_string (line @ c)" "tie_break_string (c @ part)"
    by (auto simp add: tie_break_string_def)
  with assms(1) have "js_le (rawWidth m1 sp (line @ c)) mx = js_le (rawWidth m2 sp (line @ c)) mx"
    "js_le (rawWidth m1 sp (c @ part)) mx = js_le (rawWidth m2 sp (c @ part)) mx"
    by (simp_all add: same_tie_breaks_def)
  with True show ?thesis by (simp add: split_at_def)
next
  case False
  then show ?thesis by (cases ty) (simp_all add: split_at_def)
qed

lemma roundedWidth_eq:
  "roundedWidth m1 sp = roundedWidth m2 sp \<Longrightarrow>
   js_round (rawWidth m1 sp s) = js_round (rawWidth m2 sp s)"
  by (simp add: roundedWidth_def fun_eq_iff)

lemma ceiledWidth_eq:
  "ceiledWidth m1 sp = ceiledWidth m2 sp \<Longrightarrow>
   js_ceil (rawWidth m1 sp s) = js_ceil (rawWidth m2 sp s)"
  by (simp add: ceiledWidth_def fun_eq_iff)

lemma pack_at_cong:
  assumes r: "roundedWidth m1 sp = roundedWidth m2 sp" and t: "same_tie_breaks m1 m2 sp mx"
    and cb: "checkBreak (chr bp) = Some (type bp)"
  shows "pack_at m1 sp mx bp part line acc = pack_at m2 sp mx bp part line acc"
proof -
  define c where "c = (if type bp = TySHY then [] else chr bp)"
  have "type bp = TyB2 \<longrightarrow> has B2 c" using cb by (auto simp add: c_def checkBreak_B2)
  from split_at_cong[OF t this]
  have s: "split_at m1 sp mx (type bp) line c part = split_at m2 sp mx (type bp) line c part" .
  have w: "js_round (rawWidth m1 sp (line @ c @ part)) = js_round (rawWidth m2 sp (line @ c @ part))"
    using r by (rule roundedWidth_eq)
  show ?thesis
    unfolding pack_at_def Let_def c_def[symmetric] w s ..
qed

lemma pack_step_cong:
  assumes r: "roundedWidth m1 sp = roundedWidth m2 sp" and t: "same_tie_breaks m1 m2 sp mx"
    and wf: "wf_breakpoints bps"
  shows "pack_step m1 sp mx parts bps i line acc = pack_step m2 sp mx parts bps i line acc"
proof (cases "i - 1 < length bps")
  case True
  with wf have "checkBreak (chr (bps ! (i - 1))) = Some (type (bps ! (i - 1)))"
    by (simp add: wf_breakpoints_def)
  from pack_at_cong[OF r t this] show ?thesis by (simp add: pack_step_def)
next
  case False
  then show ?thesis by (simp add: pack_step_def)
qed

lemma pack_parts_cong:
  assumes r: "roundedWidth m1 sp = roundedWidth m2 sp" and t: "same_tie_breaks m1 m2 sp mx"
    and wf: "wf_breakpoints bps"
  shows "pack_parts m1 sp mx parts bps i line acc = pack_parts m2 sp mx parts bps i line acc"
proof (induction "length parts - i" arbitrary: i line acc)
  case 0
  then have "\<not> i < length parts" by simp
  then show ?case by (simp add: pack_parts_done)
next
  case (Suc n)
  then have i: "i < length parts" and n: "n = length parts - (i + 1)" by simp_all
  note st = pack_step_cong[OF r t wf, of parts i line acc]
  show ?case
  proof (cases "pack_step m2 sp mx parts bps i line acc")
    case (Inl e)
    with st i show ?thesis by (simp add: pack_parts_step)
  next
    case (Inr res)
    obtain l a where res: "res = (l, a)" by (cases res)
    from Suc.hyps(1)[OF n, of l a] Inr res st i show ?thesis by (simp add: pack_parts_step)
  qed
qed

lemma computeLinesDefault_cong:
  assumes "\<And>sp. addWordAndLetterSpacing (wordSpacing p) (letterSpacing p) = Inr sp \<Longrightarrow>
      roundedWidth m1 sp = roundedWidth m2 sp \<and> same_tie_breaks m1 m2 sp (maxW p)"
  shows "computeLinesDefault (p\<lparr>ctx := m1\<rparr>) = computeLinesDefault (p\<lparr>ctx := m2\<rparr>)"
proof (cases "addWordAndLetterSpacing (wordSpacing p) (letterSpacing p)")
  case (Inl e)
  then show ?thesis by (simp add: computeLinesDefault_def)
next
  case (Inr sp)
  from assms[OF Inr] have r: "roundedWidth m1 sp = roundedWidth m2 sp"
    and t: "same_tie_breaks m1 m2 sp (maxW p)" by simp_all
  obtain parts bps where tp: "text_parts (or_empty (text p)) = (parts, bps)"
    by (cases "text_parts (or_empty (text p))") auto
  from pack_parts_cong[OF r t wf_text_parts[OF tp]] Inr tp show ?thesis
    by (simp add: computeLinesDefault_def)
qed

lemma break_all_step_cong:
  assumes "ceiledWidth m1 sp = ceiledWidth m2 sp"
  shows "break_all_step m1 sp mx t c st = break_all_step m2 sp mx t c st"
  unfolding break_all_step_def ceiledWidth_eq[OF assms] ..

lemma break_all_cong:
  assumes "ceiledWidth m1 sp = ceiledWidth m2 sp"
  shows "break_all m1 sp mx t cs st = break_all m2 sp mx t cs st"
  by (induction cs arbitrary: st) (simp_all add: break_all_step_cong[OF assms])

lemma computeLinesBreakAll_cong:
  assumes "\<And>sp. addWordAndLetterSpacing (wordSpacing p) (letterSpacing p) = Inr sp \<Longrightarrow>
      ceiledWidth m1 sp = ceiledWidth m2 sp"
  shows "computeLinesBreakAll (p\<lparr>ctx := m1\<rparr>) = computeLinesBreakAll (p\<lparr>ctx := m2\<rparr>)"
proof (cases "addWordAndLetterSpacing (wordSpacing p) (letterSpacing p)")
  case (Inl e)
  then show ?thesis by (simp add: computeLinesBreakAll_def)
next
  case (Inr sp)
  from break_all_cong[OF assms[OF Inr]] Inr show ?thesis
    by (simp add: computeLinesBreakAll_def)
qed

lemma no_spacing_zero: "no_spacing s = Fin 0"
  by (simp add: no_spacing_def addSpacing_def)

lemma rounded_unit_width_plus:
  "0 \<le> d \<Longrightarrow> d < 1 / 2 \<Longrightarrow> roundedWidth (unit_width_plus d) no_spacing s = Fin (real (length s))"
proof -
  assume d: "0 \<le> d" "d < 1 / 2"
  have "\<lfloor>real (length s) + d + 1 / 2\<rfloor> = int (length s)"
    using d by (intro floor_unique) simp_all
  then show ?thesis
    by (simp add: roundedWidth_def rawWidth_def no_spacing_zero unit_width_plus_def)
qed

lemma ceiled_unit_width_plus:
  "0 < d \<Longrightarrow> d \<le> 1 \<Longrightarrow> ceiledWidth (unit_width_plus d) no_spacing s = Fin (real (length s) + 1)"
proof -
  assume d: "0 < d" "d \<le> 1"
  have "\<lceil>real (length s) + d\<rceil> = int (length s) + 1"
    using d by (intro ceiling_unique) simp_all
  then show ?thesis
    by (simp add: ceiledWidth_def rawWidth_def no_spacing_zero unit_width_plus_def)
qed

lemma default_em_dash_unit:
  "computeLinesDefault (example_params [0x61, 0x62, 0x2014, 0x63, 0x64] 3)
     = Inr [[0x61, 0x62, 0x2014], [0x63, 0x64]]"
  by (simp add: default_eval_defs)

lemma default_em_dash_wide:
  "computeLinesDefault ((example_params [0x61, 0x62, 0x2014, 0x63, 0x64] 3)\<lparr>ctx := unit_width_wide\<rparr>)
     = Inr [[0x61, 0x62], [0x2014], [0x63, 0x64]]"
  by (simp add: default_eval_defs)

lemma rounded_unit_wide: "roundedWidth unit_width no_spacing = roundedWidth unit_width_wide no_spacing"
  by (rule ext) (simp add: unit_width_def unit_width_wide_def rounded_unit_width_plus)

lemma em_dash_fits_rounded: "fits unit_width_wide no_spacing (Fin 3) [0x61, 0x62, 0x2014]"
  using rounded_unit_width_plus[of "4 / 10" "[0x61, 0x62, 0x2014]"]
  by (simp add: fits_def roundedWidth_def unit_width_wide_def)

lemma em_dash_raw_over:
  "\<not> js_le (rawWidth unit_width_wide no_spacing [0x61, 0x62, 0x2014]) (Fin 3)"
  by (simp add: rawWidth_def no_spacing_zero unit_width_wide_def unit_width_plus_def)

text \<open>
  Claim C4: every comparison with the maximum is made on a rounded width, the two
  secondary measurements of the \<open>B2\<close> tie-break included. The tie-break compares its
  two widths as they are measured. With one pixel for every code unit and 0.4 pixel
  more, and a maximum of 3, the line \<open>ab\<close> with the em dash is 3.4 pixels wide: it
  fits once rounded, as every other comparison of the loop would have it, yet the
  em dash gets a line of its own. With one pixel for every code unit, which rounds
  alike for every string, the em dash stays on the first line. The other comparisons
  are made on rounded widths (\<open>computeLinesDefault_cong\<close>, \<open>computeLinesBreakAll_cong\<close>).
\<close>

theorem C4_tie_break_unrounded:
  "fits unit_width_wide no_spacing (Fin 3) [0x61, 0x62, 0x2014]
   \<and> \<not> js_le (rawWidth unit_width_wide no_spacing [0x61, 0x62, 0x2014]) (Fin 3)
   \<and> computeLinesDefault
         ((example_params [0x61, 0x62, 0x2014, 0x63, 0x64] 3)\<lparr>ctx := unit_width_wide\<rparr>)
       = Inr [[0x61, 0x62], [0x2014], [0x63, 0x64]]
   \<and> roundedWidth unit_width no_spacing = roundedWidth unit_width_wide no_spacing
   \<and> computeLinesDefault (example_params [0x61, 0x62, 0x2014, 0x63, 0x64] 3)
       = Inr [[0x61, 0x62, 0x2014], [0x63, 0x64]]"
  using em_dash_fits_rounded em_dash_raw_over rounded_unit_wide default_em_dash_unit
    default_em_dash_wide
  by simp

subsection \<open>Round trip of the break-all policy\<close>

lemma concat_chars_of: "concat (chars_of t) = t"
  by (induction t rule: chars_of.induct) auto

lemma visible_append: "visible (a @ b) = visible a @ visible b"
  by (simp add: visible_def)

lemma visible_Nil [simp]: "visible [] = []"
  by (simp add: visible_def)

lemma visible_BAI: "has BAI c \<Longrightarrow> visible c = []"
  by (auto simp add: visible_def kept_unit_def BAI_def has_def)

lemma checkBreak_BK: "checkBreak c = Some TyBK \<Longrightarrow> c = [0x0A]"
  by (auto simp add: checkBreak_def has_def BK_def split: if_splits)

lemma checkBreak_SHY: "checkBreak c = Some TySHY \<Longrightarrow> c = [0xAD]"
  by (auto simp add: checkBreak_def has_def SHY_def split: if_splits)

lemma checkBreak_BAI: "checkBreak c = Some TyBAI \<Longrightarrow> has BAI c"
  by (auto simp add: checkBreak_def split: if_splits)

lemma visible_BK: "visible [0x0A] = []"
  by (simp add: visible_def kept_unit_def)

lemma visible_SHY: "visible [0xAD] = []"
  by (simp add: visible_def kept_unit_def)

lemma visible_hyphen: "visible (js ''-'') = []"
  by (simp add: visible_def kept_unit_def js_def)

lemma break_all_step_visible:
  assumes "break_all_step m sp mx t c (line, acc, idx) = (line', acc', idx')"
  shows "visible (concat acc' @ line') = visible (concat acc @ line) @ visible c"
proof (cases "checkBreak c = Some TyBK")
  case True
  with assms have "line' = []" "acc' = acc @ [line]" by (simp_all add: break_all_step_def)
  with checkBreak_BK[OF True] show ?thesis by (simp add: visible_append visible_BK)
next
  case nbk: False
  show ?thesis
  proof (cases "has BAI c \<and> (length line = 0 \<or> has BAI [last line])")
    case True
    with nbk assms have "line' = line" "acc' = acc" by (simp_all add: break_all_step_def)
    with True show ?thesis by (simp add: visible_append visible_BAI)
  next
    case ns: False
    define w where "w = (if checkBreak c = Some TySHY
                  then js_ceil (rawWidth m sp (line @ c @ unit_at t (idx + 1)))
                  else js_ceil (rawWidth m sp (line @ c)))"
    show ?thesis
    proof (cases "js_gt w mx \<and> line \<noteq> []")
      case True
      show ?thesis
      proof (cases "checkBreak c")
        case None
        with nbk ns True assms have "line' = c" "acc' = acc @ [line]"
          by (auto simp add: break_all_step_def w_def)
        then show ?thesis by (simp add: visible_append)
      next
        case (Some ty)
        show ?thesis
        proof (cases ty)
          case TySHY
          with Some nbk ns True assms have "line' = []" "acc' = acc @ [line @ js ''-'']"
            by (auto simp add: break_all_step_def w_def)
          with checkBreak_SHY[of c] Some TySHY show ?thesis
            by (simp add: visible_append visible_SHY visible_hyphen)
        next
          case TyBA
          with Some nbk ns True assms have "line' = []" "acc' = acc @ [line @ c]"
            by (auto simp add: break_all_step_def w_def)
          then show ?thesis by (simp add: visible_append)
        next
          case TyBAI
          with Some nbk ns True assms have "line' = []" "acc' = acc @ [line]"
            by (auto simp add: break_all_step_def w_def)
          with checkBreak_BAI[of c] Some TyBAI show ?thesis
            by (simp add: visible_append visible_BAI)
        next
          case TyB2
          with Some nbk ns True assms have "line' = c" "acc' = acc @ [line]"
            by (auto simp add: break_all_step_def w_def)
          then show ?thesis by (simp add: visible_append)
        next
          case TyBB
          with Some nbk ns True assms have "line' = c" "acc' = acc @ [line]"
            by (auto simp add: break_all_step_def w_def)
          then show ?thesis by (simp add: visible_append)
        next
          case TyBK
          with Some nbk show ?thesis by simp
        qed
      qed
    next
      case nf: False
      show ?thesis
      proof (cases "c = [0xAD]")
        case True
        with nbk ns nf assms have "line' = line" "acc' = acc"
          by (auto simp add: break_all_step_def w_def)
        with True show ?thesis by (simp add: visible_append visible_SHY)
      next
        case False
        with nbk ns nf assms have "line' = line @ c" "acc' = acc"
          by (auto simp add: break_all_step_def w_def)
        then show ?thesis by (simp add: visible_append)
      qed
    qed
  qed
qed

lemma break_all_visible:
  "break_all m sp mx t cs (line, acc, idx) = (line', acc', idx') \<Longrightarrow>
   visible (concat acc' @ line') = visible (concat acc @ line) @ visible (concat cs)"
proof (induction cs arbitrary: line acc idx)
  case Nil
  then show ?case by simp
next
  case (Cons c cs)
  obtain l1 a1 i1 where st: "break_all_step m sp mx t c (line, acc, idx) = (l1, a1, i1)"
    by (cases "break_all_step m sp mx t c (line, acc, idx)") auto
  with Cons.prems have "break_all m sp mx t cs (l1, a1, i1) = (line', acc', idx')" by simp
  from Cons.IH[OF this] break_all_step_visible[OF st] show ?case
    by (simp add: visible_append)
qed

lemma break_all_round_trip:
  assumes "computeLinesBreakAll p = Inr ls"
  shows "visible (concat ls) = visible (or_empty (text p))"
proof (cases "no_text (text p)")
  case True
  with assms have "ls = []"
    by (auto simp add: computeLinesBreakAll_def split: sum.splits)
  with True show ?thesis by (auto simp add: no_text_def or_empty_def visible_def)
next
  case False
  from assms obtain sp
    where sp: "addWordAndLetterSpacing (wordSpacing p) (letterSpacing p) = Inr sp"
    by (auto simp add: computeLinesBreakAll_def split: sum.splits)
  let ?t = "or_empty (text p)"
  obtain line acc idx
    where b: "break_all (ctx p) sp (maxW p) ?t (chars_of ?t) ([], [], 0) = (line, acc, idx)"
    by (cases "break_all (ctx p) sp (maxW p) ?t (chars_of ?t) ([], [], 0)") auto
  with assms sp False have ls: "ls = (if line \<noteq> [] then acc @ [line] else acc)"
    by (simp add: computeLinesBreakAll_def)
  then have "concat ls = concat acc @ line" by simp
  with break_all_visible[OF b] show ?thesis by (simp add: concat_chars_of)
qed

subsection \<open>Round trip of the default policy\<close>

lemma chars_of_nonempty: "c \<in> set (chars_of t) \<Longrightarrow> c \<noteq> []"
  by (induction t rule: chars_of.induct) (auto split: if_splits)

lemma weave_snoc:
  "ps \<noteq> [] \<Longrightarrow> length ps \<le> length bs \<Longrightarrow>
   weave (ps @ [q]) bs = weave ps bs @ chr (bs ! (length ps - 1)) @ q"
proof (induction ps bs rule: weave.induct)
  case (1 bs)
  then show ?case by simp
next
  case (2 p bs)
  then show ?case by (cases bs) auto
next
  case (3 p q ps)
  then show ?case by simp
next
  case (4 p q ps b bs)
  then show ?case by simp
qed

lemma weave_more_breakpoints:
  "length ps \<le> Suc (length bs) \<Longrightarrow> weave ps (bs @ bs2) = weave ps bs"
proof (induction ps bs rule: weave.induct)
  case (3 p q ps)
  then show ?case by simp
qed simp_all

lemma weave_last_append:
  "length ps = length bs \<Longrightarrow> weave (ps @ [x @ y]) bs = weave (ps @ [x]) bs @ y"
proof (cases "ps = []")
  case True
  then show ?thesis by simp
next
  case False
  assume "length ps = length bs"
  with False show ?thesis by (simp add: weave_snoc)
qed

lemma weave_empty_last:
  "length ps = length bs \<Longrightarrow> visible (weave (ps @ [[]]) bs) = visible (weave ps bs) @ visible (trailing_boundary ps bs)"
proof (cases "ps = []")
  case True
  then show ?thesis by (simp add: trailing_boundary_def)
next
  case False
  assume l: "length ps = length bs"
  with False have "bs \<noteq> []" by auto
  then have "bs ! (length ps - 1) = last bs" using l by (simp add: last_conv_nth)
  with False l \<open>bs \<noteq> []\<close> show ?thesis
    by (simp add: weave_snoc trailing_boundary_def visible_append)
qed

lemma has_BAI_single: "has BAI x \<Longrightarrow> \<exists>u. x = [u]"
  by (auto simp add: has_def BAI_def)

lemma checkBreak_None_not_BAI: "checkBreak c = None \<Longrightarrow> \<not> has BAI c"
  by (auto simp add: checkBreak_def split: if_splits)

lemma not_BAI_append:
  assumes "checkBreak c = None" and "c \<noteq> []"
  shows "\<not> has BAI (part @ c)"
proof
  assume h: "has BAI (part @ c)"
  then obtain u where "part @ c = [u]" using has_BAI_single by blast
  with assms(2) have "part = []" by (cases part) auto
  with h have "has BAI c" by simp
  with checkBreak_None_not_BAI[OF assms(1)] show False by simp
qed

lemma not_BAI_Nil: "\<not> has BAI []"
  by (simp add: has_def BAI_def)

lemma scan_parts_weave:
  assumes "scan_parts cs part parts bps = (part', parts', bps')"
    and "length parts = length bps" and "\<forall>c \<in> set cs. c \<noteq> []"
    and "\<not> has BAI part" and "\<forall>p \<in> set parts. \<not> has BAI p"
  shows "length parts' = length bps'
    \<and> visible (weave (parts' @ [part']) bps')
        = visible (weave (parts @ [part]) bps) @ visible (concat cs)
    \<and> \<not> has BAI part' \<and> (\<forall>p \<in> set parts'. \<not> has BAI p)"
  using assms
proof (induction cs arbitrary: part parts bps)
  case Nil
  then show ?case by simp
next
  case (Cons c rest)
  from Cons.prems(3) have c: "c \<noteq> []" and rest: "\<forall>c \<in> set rest. c \<noteq> []" by simp_all
  show ?case
  proof (cases "part = [] \<and> checkBreak c = Some TyBAI")
    case True
    with Cons.prems(1) have s: "scan_parts rest part parts bps = (part', parts', bps')"
      by (simp add: Let_def)
    from True have "visible c = []" by (simp add: checkBreak_BAI visible_BAI)
    with Cons.IH[OF s Cons.prems(2) rest Cons.prems(4) Cons.prems(5)] show ?thesis
      by (simp add: visible_append)
  next
    case False
    show ?thesis
    proof (cases "checkBreak c")
      case None
      with False Cons.prems(1)
      have s: "scan_parts rest (part @ c) parts bps = (part', parts', bps')"
        by (simp add: Let_def)
      have w: "weave (parts @ [part @ c]) bps = weave (parts @ [part]) bps @ c"
        using Cons.prems(2) by (rule weave_last_append)
      from Cons.IH[OF s Cons.prems(2) rest not_BAI_append[OF None c] Cons.prems(5)] w
      show ?thesis by (simp add: visible_append)
    next
      case (Some t)
      let ?bp = "\<lparr>chr = c, type = t\<rparr>"
      from False Some Cons.prems(1)
      have s: "scan_parts rest [] (parts @ [part]) (bps @ [?bp]) = (part', parts', bps')"
        by (auto simp add: Let_def)
      have l: "length (parts @ [part]) = length (bps @ [?bp])" using Cons.prems(2) by simp
      have nb: "\<forall>p \<in> set (parts @ [part]). \<not> has BAI p"
        using Cons.prems(4,5) by simp
      have "weave ((parts @ [part]) @ [[]]) (bps @ [?bp])
          = weave (parts @ [part]) (bps @ [?bp])
            @ chr ((bps @ [?bp]) ! (length (parts @ [part]) - 1)) @ []"
        by (rule weave_snoc) (use Cons.prems(2) in simp_all)
      also have "weave (parts @ [part]) (bps @ [?bp]) = weave (parts @ [part]) bps"
        by (rule weave_more_breakpoints) (use Cons.prems(2) in simp)
      also have "(bps @ [?bp]) ! (length (parts @ [part]) - 1) = ?bp"
        using Cons.prems(2) by simp
      finally have w: "weave ((parts @ [part]) @ [[]]) (bps @ [?bp])
          = weave (parts @ [part]) bps @ c" by simp
      from Cons.IH[OF s l rest not_BAI_Nil nb] w show ?thesis
        by (simp add: visible_append)
    qed
  qed
qed

lemma text_parts_weave:
  assumes "text_parts t = (parts, bps)"
  shows "visible t = visible (weave parts bps) @ visible (trailing_boundary parts bps)"
    and "\<forall>p \<in> set parts. \<not> has BAI p"
    and "length parts \<le> Suc (length bps)"
proof -
  obtain part ps bs where s: "scan_parts (chars_of t) [] [] [] = (part, ps, bs)"
    by (cases "scan_parts (chars_of t) [] [] []") auto
  have "\<forall>c \<in> set (chars_of t). c \<noteq> []" using chars_of_nonempty by blast
  from scan_parts_weave[OF s _ this not_BAI_Nil]
  have len: "length ps = length bs"
    and vis: "visible (weave (ps @ [part]) bs) = visible t"
    and nb: "\<not> has BAI part" "\<forall>p \<in> set ps. \<not> has BAI p"
    by (simp_all add: concat_chars_of)
  from assms s have p: "parts = (if part \<noteq> [] then ps @ [part] else ps)" and b: "bps = bs"
    by (simp_all add: text_parts_def)
  show "visible t = visible (weave parts bps) @ visible (trailing_boundary parts bps)"
  proof (cases "part = []")
    case True
    with p b vis weave_empty_last[OF len] show ?thesis by simp
  next
    case False
    with p b len have "trailing_boundary parts bps = []" by (simp add: trailing_boundary_def)
    with False p b vis show ?thesis by simp
  qed
  show "\<forall>p \<in> set parts. \<not> has BAI p" using p nb by auto
  show "length parts \<le> Suc (length bps)" using p b len by simp
qed

lemma split_at_visible:
  assumes "split_at m sp mx ty line c part = Inr (pushed, line')"
    and "ty = TyBAI \<longrightarrow> has BAI c" and "ty = TySHY \<longrightarrow> c = []"
  shows "visible (concat pushed @ line') = visible line @ visible c @ visible part"
proof (cases ty)
  case TyB2
  with assms(1) consider
      "pushed = [line @ c]" "line' = part"
    | "pushed = [line]" "line' = c @ part"
    | "pushed = [line, c]" "line' = part"
    by (auto simp add: split_at_def split: if_splits)
  then show ?thesis by cases (simp_all add: visible_append)
next
  case TyBAI
  with assms show ?thesis by (auto simp add: split_at_def visible_append visible_BAI)
next
  case TySHY
  with assms show ?thesis by (auto simp add: split_at_def visible_append visible_hyphen)
next
  case TyBA
  with assms show ?thesis by (auto simp add: split_at_def visible_append)
next
  case TyBB
  with assms show ?thesis by (auto simp add: split_at_def visible_append)
next
  case TyBK
  with assms show ?thesis by (simp add: split_at_def)
qed

lemma pack_at_visible:
  assumes at: "pack_at m sp mx bp part line acc = Inr (line', acc')"
    and cb: "checkBreak (chr bp) = Some (type bp)"
  shows "visible (concat acc' @ line')
      = visible (concat acc @ line) @ visible (chr bp) @ visible part"
proof -
  have shy: "type bp = TySHY \<Longrightarrow> visible (chr bp) = []"
    using cb checkBreak_SHY[of "chr bp"] by (simp add: visible_SHY)
  from at show ?thesis
  proof (cases rule: pack_at_cases)
    case mandatory
    with cb checkBreak_BK[of "chr bp"] show ?thesis by (simp add: visible_append visible_BK)
  next
    case (extend c)
    with shy show ?thesis by (simp add: visible_append)
  next
    case (split c pushed)
    have "type bp = TyBAI \<longrightarrow> has BAI c" using split(1) cb by (simp add: checkBreak_BAI)
    moreover have "type bp = TySHY \<longrightarrow> c = []" using split(1) by simp
    ultimately have "visible (concat pushed @ line') = visible line @ visible c @ visible part"
      by (rule split_at_visible[OF split(2)])
    moreover have "visible c = visible (chr bp)" using split(1) shy by simp
    ultimately show ?thesis using split(3) by (simp add: visible_append)
  qed
qed

lemma pack_step_visible:
  assumes step: "pack_step m sp mx parts bps i line acc = Inr (line', acc')"
    and i: "i < length parts"
    and wf: "wf_breakpoints bps"
    and nb: "\<forall>p \<in> set parts. \<not> has BAI p"
    and len: "length parts \<le> Suc (length bps)"
    and inv: "0 < i \<longrightarrow> visible (concat acc @ line) = visible (weave (take i parts) bps)"
    and first: "i = 0 \<longrightarrow> acc = []"
  shows "visible (concat acc' @ line') = visible (weave (take (Suc i) parts) bps)"
proof (cases "i = 0")
  case True
  with step first have "line' = parts ! 0" "acc' = []" by (simp_all add: pack_step_first)
  moreover from i True have "take (Suc 0) parts = [parts ! 0]" by (cases parts) auto
  ultimately show ?thesis using True by simp
next
  case False
  then have pos: "0 < i" by simp
  from i have "parts ! i \<in> set parts" by simp
  with nb have nbai: "\<not> (has BAI (parts ! (i - 1)) \<and> has BAI (parts ! i))" by blast
  from i len pos have inb: "i - 1 < length bps" by simp
  from step have at: "pack_at m sp mx (bps ! (i - 1)) (parts ! i) line acc = Inr (line', acc')"
    unfolding pack_step_at[OF pos nbai inb] .
  from inb wf have cb: "checkBreak (chr (bps ! (i - 1))) = Some (type (bps ! (i - 1)))"
    by (simp add: wf_breakpoints_def)
  have "take (Suc i) parts = take i parts @ [parts ! i]"
    using i by (rule take_Suc_conv_app_nth)
  moreover have "weave (take i parts @ [parts ! i]) bps
      = weave (take i parts) bps @ chr (bps ! (length (take i parts) - 1)) @ parts ! i"
    by (rule weave_snoc) (use i pos len in auto)
  moreover have "length (take i parts) = i" using i by simp
  ultimately have "weave (take (Suc i) parts) bps
      = weave (take i parts) bps @ chr (bps ! (i - 1)) @ parts ! i" by simp
  with pack_at_visible[OF at cb] inv pos show ?thesis by (simp add: visible_append)
qed

lemma pack_parts_visible:
  "pack_parts m sp mx parts bps i line acc = Inr (line', acc') \<Longrightarrow>
   i \<le> length parts \<Longrightarrow> parts \<noteq> [] \<Longrightarrow> wf_breakpoints bps \<Longrightarrow>
   (\<forall>p \<in> set parts. \<not> has BAI p) \<Longrightarrow> length parts \<le> Suc (length bps) \<Longrightarrow>
   (0 < i \<longrightarrow> visible (concat acc @ line) = visible (weave (take i parts) bps)) \<Longrightarrow>
   (i = 0 \<longrightarrow> acc = []) \<Longrightarrow>
   visible (concat acc' @ line') = visible (weave parts bps)"
proof (induction m sp mx parts bps i line acc rule: pack_parts.induct)
  case (1 m sp mx parts bps i line acc)
  show ?case
  proof (cases "i < length parts")
    case True
    from "1.prems"(1) True obtain l1 a1
      where st: "pack_step m sp mx parts bps i line acc = Inr (l1, a1)"
        and rest: "pack_parts m sp mx parts bps (i + 1) l1 a1 = Inr (line', acc')"
      by (auto simp add: pack_parts_step split: sum.splits)
    from pack_step_visible[OF st True "1.prems"(4) "1.prems"(5) "1.prems"(6) "1.prems"(7)
        "1.prems"(8)]
    have inv: "visible (concat a1 @ l1) = visible (weave (take (Suc i) parts) bps)" .
    from True have le: "i + 1 \<le> length parts" by simp
    from "1.IH"[OF True st refl rest le "1.prems"(3) "1.prems"(4) "1.prems"(5) "1.prems"(6)] inv
    show ?thesis by simp
  next
    case False
    with "1.prems"(2) have eq: "i = length parts" by simp
    with "1.prems"(3) have pos: "0 < i" by simp
    from False "1.prems"(1) have "line' = line" "acc' = acc"
      by (simp_all add: pack_parts_done)
    with "1.prems"(7) pos eq show ?thesis by simp
  qed
qed

lemma default_round_trip:
  assumes "computeLinesDefault p = Inr ls"
    and "text_parts (or_empty (text p)) = (parts, bps)"
  shows "visible (concat ls) @ visible (trailing_boundary parts bps)
      = visible (or_empty (text p))"
proof -
  note tw = text_parts_weave[OF assms(2)]
  have "visible (concat ls) = visible (weave parts bps)"
  proof (cases "no_text (text p)")
    case True
    then have "or_empty (text p) = []" by (auto simp add: no_text_def or_empty_def)
    with tw(1) have "visible (weave parts bps) = []" by simp
    moreover from True assms(1) have "ls = []"
      by (auto simp add: computeLinesDefault_def split: sum.splits)
    ultimately show ?thesis by simp
  next
    case False
    from assms(1) obtain sp
      where sp: "addWordAndLetterSpacing (wordSpacing p) (letterSpacing p) = Inr sp"
      by (auto simp add: computeLinesDefault_def split: sum.splits)
    with assms False obtain line acc
      where pk: "pack_parts (ctx p) sp (maxW p) parts bps 0 [] [] = Inr (line, acc)"
        and ls: "ls = (if line \<noteq> [] then acc @ [line] else acc)"
      by (auto simp add: computeLinesDefault_def split: sum.splits)
    from ls have c: "concat ls = concat acc @ line" by simp
    show ?thesis
    proof (cases "parts = []")
      case True
      with pk have "line = []" "acc = []" by (simp_all add: pack_parts_done)
      with c have "concat ls = []" by simp
      with True show ?thesis by (simp only: weave.simps visible_Nil)
    next
      case ne: False
      from pack_parts_visible[OF pk _ ne wf_text_parts[OF assms(2)] tw(2) tw(3)] c
      show ?thesis by simp
    qed
  qed
  with tw(1) show ?thesis by simp
qed

text \<open>
  Claim C3: the lines put together give the text back, up to collapsed whitespace and
  soft hyphens. The default policy writes a boundary character only when it reaches the
  part after it, so a boundary character with no part after it is lost: \<open>a|\<close> gives
  the single line \<open>a\<close>, for every maximum. The break-all policy keeps it. This is the
  only loss: \<open>default_round_trip\<close> and \<open>break_all_round_trip\<close> give the round trip of
  the kept code units for both policies, up to that trailing boundary character in the
  default policy.
\<close>

theorem C3_default_loses_trailing_boundary:
  "computeLinesDefault (example_params (js ''a|'') m) = Inr [js ''a'']
   \<and> computeLinesBreakAll (example_params (js ''a|'') 100) = Inr [js ''a|'']"
  using default_trailing_bar break_all_trailing_bar by simp

subsection \<open>Empty input\<close>

lemma no_text_parse_empty_element:
  "no_text t \<Longrightarrow> elText r = Some [] \<Longrightarrow> no_text (parseArgs_text r t)"
  by (simp add: no_text_def parseArgs_text_def normalizeWhitespace_def or_empty_def
      trim_def trimStart_def trimEnd_def newlines_to_spaces_def)

lemma width_empty_input:
  assumes "no_text t" and "elText r = None \<or> elText r = Some []"
  shows "width r t = Inr (Fin 0)"
proof -
  from assms have "no_text (parseArgs_text r t)"
    using no_text_parse no_text_parse_empty_element by blast
  then show ?thesis by (rule width_no_text)
qed

lemma converts_addon: "converts v \<Longrightarrow> \<exists>n. addon v = Inr n"
  by (cases v) (auto simp add: converts_def addon_def)

lemma computeLines_converts:
  assumes "no_text (text p)" and "converts (wordSpacing p)" and "converts (letterSpacing p)"
  shows "computeLinesDefault p = Inr []" and "computeLinesBreakAll p = Inr []"
proof -
  from converts_addon[OF assms(2)] converts_addon[OF assms(3)]
  obtain w l where "addon (wordSpacing p) = Inr w" "addon (letterSpacing p) = Inr l" by blast
  then have "addWordAndLetterSpacing (wordSpacing p) (letterSpacing p) = Inr (addSpacing w l)"
    by (simp add: addWordAndLetterSpacing_def)
  from computeLines_no_text[OF assms(1) this]
  show "computeLinesDefault p = Inr []" and "computeLinesBreakAll p = Inr []" .
qed

lemma pxValue_16px: "pxValue (js ''16px'') None = Inr (Fin 16)"
  by (simp add: px_eval_defs)

lemma pxValue_2px: "pxValue (js ''2px'') None = Inr (Fin 2)"
  by (simp add: px_eval_defs)

lemma width_of_element_text:
  "width (example_instance\<lparr>elText := Some (js ''abc'')\<rparr>) None = Inr (Fin 3)"
proof -
  have p: "parseArgs_text (example_instance\<lparr>elText := Some (js ''abc'')\<rparr>) None = Some (js ''abc'')"
    by (simp add: parseArgs_text_def example_instance_def no_text_def normalizeWhitespace_def
        or_empty_def trim_def trimStart_def trimEnd_def newlines_to_spaces_def js_def isSpace_def)
  have f: "getFont (example_instance\<lparr>elText := Some (js ''abc'')\<rparr>) = Inr (Fin 16)"
    by (simp add: getFont_def example_instance_def pxValue_16px)
  have n: "\<not> no_text (Some (js ''abc''))" by (simp add: no_text_def js_def)
  have r: "rawWidth unit_width no_spacing (js ''abc'') = Fin 3"
    by (simp add: rawWidth_def no_spacing_zero unit_width_def unit_width_plus_def js_def)
  show ?thesis
    unfolding width_def p f
    using n r
    by (simp add: example_instance_def addWordAndLetterSpacing_none or_empty_def)
qed

text \<open>
  Claim C9, as stated, fails in two ways. The two line breakers convert the spacing
  values before they look at the text, so an unsupported unit raises its error for an
  empty text too. And with an element, a missing text is read from the element, so
  \<open>width\<close> is the width of the text of the element.
\<close>

theorem C9_counterexample:
  "no_text (text ((example_params [] 10)\<lparr>wordSpacing := Some (js ''2xyz'')\<rparr>))
   \<and> computeLinesDefault ((example_params [] 10)\<lparr>wordSpacing := Some (js ''2xyz'')\<rparr>)
       = Inl (Error (js ''The unit xyz is not supported''))
   \<and> no_text None
   \<and> width (example_instance\<lparr>elText := Some (js ''abc'')\<rparr>) None = Inr (Fin 3)"
  using pxValue_error_propagates(1)[OF pxValue_2xyz, of "example_params [] 10"]
    width_of_element_text
  by (simp add: example_params_def no_text_def has_def blacklist_def js_def)

text \<open>
  Claim C9, amended: for an empty or missing text, \<open>width\<close> returns 0 when the
  instance has no element or an element without text; and the two line breakers
  return no line when each of the word spacing and the letter spacing is missing,
  empty, a keyword of the blacklist, or a value that \<open>pxValue\<close> converts.
\<close>

theorem C9_empty_text:
  "(no_text t \<and> (elText r = None \<or> elText r = Some []) \<longrightarrow> width r t = Inr (Fin 0))
   \<and> (no_text (text p) \<and> converts (wordSpacing p) \<and> converts (letterSpacing p)
        \<longrightarrow> computeLinesDefault p = Inr [] \<and> computeLinesBreakAll p = Inr [])"
  using width_empty_input[of t r] computeLines_converts[of p] by blast

theorem C9_witness:
  "no_text None \<and> elText example_instance = None \<and> width example_instance None = Inr (Fin 0)
   \<and> no_text (Some []) \<and> elText (example_instance\<lparr>elText := Some []\<rparr>) = Some []
   \<and> width (example_instance\<lparr>elText := Some []\<rparr>) (Some []) = Inr (Fin 0)
   \<and> no_text (text ((example_params [] 10)\<lparr>wordSpacing := Some (js ''2px''),
                       letterSpacing := Some (js ''normal'')\<rparr>))
   \<and> converts (Some (js ''2px'')) \<and> converts (Some (js ''normal''))
   \<and> computeLinesDefault ((example_params [] 10)\<lparr>wordSpacing := Some (js ''2px''),
         letterSpacing := Some (js ''normal'')\<rparr>) = Inr []
   \<and> computeLinesBreakAll ((example_params [] 10)\<lparr>wordSpacing := Some (js ''2px''),
         letterSpacing := Some (js ''normal'')\<rparr>) = Inr []"
proof -
  let ?p = "(example_params [] 10)\<lparr>wordSpacing := Some (js ''2px''),
              letterSpacing := Some (js ''normal'')\<rparr>"
  have a: "no_text None" "elText example_instance = None" "no_text (Some [])"
    "elText (example_instance\<lparr>elText := Some []\<rparr>) = Some []"
    by (simp_all add: no_text_def example_instance_def)
  have c: "converts (Some (js ''2px''))" "converts (Some (js ''normal''))"
    using pxValue_2px by (auto simp add: converts_def has_def blacklist_def)
  have p: "no_text (text ?p)" "wordSpacing ?p = Some (js ''2px'')"
    "letterSpacing ?p = Some (js ''normal'')"
    by (simp_all add: no_text_def example_params_def)
  from C9_empty_text[of None example_instance ?p] a p c
  have r1: "width example_instance None = Inr (Fin 0)"
    and r2: "computeLinesDefault ?p = Inr []" and r3: "computeLinesBreakAll ?p = Inr []"
    by simp_all
  from C9_empty_text[of "Some []" "example_instance\<lparr>elText := Some []\<rparr>"] a
  have r4: "width (example_instance\<lparr>elText := Some []\<rparr>) (Some []) = Inr (Fin 0)" by simp
  from a c p(1) r1 r2 r3 r4 show ?thesis by simp
qed

end
